theory Spec2Isabelle
  imports Complex_Main "HOL-Library.Multiset"
begin

section \<open>Errors raised by the Python code\<close>

text \<open>
  Every \<^verbatim>\<open>assert\<close>, every arithmetic fault and every out-of-range index of the
  source is a value of this type; a function that can raise returns \<open>error + 'a\<close>.
\<close>

datatype error =
    AssertionError string
  | ValueError
  | ZeroDivisionError
  | IndexError
  | RuntimeError

text \<open>A loop whose body can raise stops at the first exception.\<close>

fun fold_err :: "('a \<Rightarrow> 's \<Rightarrow> error + 's) \<Rightarrow> 'a list \<Rightarrow> 's \<Rightarrow> error + 's" where
  "fold_err f [] s = Inr s"
| "fold_err f (x # xs) s = (case f x s of Inl e \<Rightarrow> Inl e | Inr s' \<Rightarrow> fold_err f xs s')"

text \<open>A list comprehension whose element expression can raise.\<close>

fun map_err :: "('a \<Rightarrow> error + 'b) \<Rightarrow> 'a list \<Rightarrow> error + 'b list" where
  "map_err f [] = Inr []"
| "map_err f (x # xs) =
     (case f x of Inl e \<Rightarrow> Inl e
      | Inr y \<Rightarrow> (case map_err f xs of Inl e \<Rightarrow> Inl e | Inr ys \<Rightarrow> Inr (y # ys)))"

text \<open>Indexing a one-dimensional tensor with a non-negative index.\<close>

definition getitem :: "'a list \<Rightarrow> nat \<Rightarrow> error + 'a" where
  "getitem xs i = (if i < length xs then Inr (xs ! i) else Inl IndexError)"

text \<open>Indexing a Python list with an integer: a negative index counts from the end.\<close>

definition py_getitem :: "'a list \<Rightarrow> int \<Rightarrow> error + 'a" where
  "py_getitem xs i =
     (if 0 \<le> i \<and> i < int (length xs) then Inr (xs ! nat i)
      else if i < 0 \<and> - int (length xs) \<le> i then Inr (xs ! nat (int (length xs) + i))
      else Inl IndexError)"

text \<open>Indexing a tensor with a tensor of indices: \<^verbatim>\<open>t[idx]\<close>.\<close>

definition index_select :: "'a list \<Rightarrow> nat list \<Rightarrow> error + 'a list" where
  "index_select xs idx = map_err (getitem xs) idx"


section \<open>Image tensors\<close>

text \<open>
  An image, a background and a mask are tensors of the fixed shape \<open>3 \<times> 28 \<times> 28\<close>.
  Such a tensor is modelled by its entries: \<open>t c r k\<close> is the entry of channel \<open>c < 3\<close>,
  row \<open>r < 28\<close> and column \<open>k < 28\<close>. Entries are single-precision floats in the source
  and reals here; the operations below (a product with 0 or 1, the sum with 0) are exact
  on floats.
\<close>

type_synonym tensor = "nat \<Rightarrow> nat \<Rightarrow> nat \<Rightarrow> real"

definition zeros :: tensor where
  "zeros = (\<lambda>c r k. 0)"

definition tmul :: "tensor \<Rightarrow> tensor \<Rightarrow> tensor" where
  "tmul a b = (\<lambda>c r k. a c r k * b c r k)"

definition tadd :: "tensor \<Rightarrow> tensor \<Rightarrow> tensor" where
  "tadd a b = (\<lambda>c r k. a c r k + b c r k)"

text \<open>\<^verbatim>\<open>x == 0\<close>: a boolean tensor, read as 1 and 0 when it is multiplied.\<close>

definition teq0 :: "tensor \<Rightarrow> tensor" where
  "teq0 x = (\<lambda>c r k. if x c r k = 0 then 1 else 0)"

text \<open>
  The compositing statement of \<^verbatim>\<open>load_data\<close>:
  \<^verbatim>\<open>X[idx] = (background * (X[idx] == 0)) + X[idx]\<close>.
\<close>

definition composite :: "tensor \<Rightarrow> tensor \<Rightarrow> tensor" where
  "composite background x = tadd (tmul background (teq0 x)) x"

text \<open>The entries of the canvas, in row-major order.\<close>

definition canvas :: "(nat \<times> nat) list" where
  "canvas = List.product [0..<28] [0..<28]"

definition channels :: "nat list" where
  "channels = [0..<3]"

definition no_zero_pixel :: "tensor \<Rightarrow> bool" where
  "no_zero_pixel x = list_all (\<lambda>c. list_all (\<lambda>(r, k). x c r k \<noteq> 0) canvas) channels"




section \<open>Python numbers and torch scalars\<close>

text \<open>
  \<^verbatim>\<open>torch.tensor(x)\<close> of a Python float is a single-precision scalar: the float
  (a real here) is rounded to the nearest value with a 24-bit significand, ties to the
  even significand. The exponent of \<open>x\<close> is found by halving or doubling \<open>\<bar>x\<bar>\<close> into
  \<open>[1, 2)\<close>; it is at least \<open>-126\<close> (below that the spacing is that of the subnormal
  numbers). A value rounded to \<open>2\<^sup>1\<^sup>2\<^sup>8\<close> or more stands for torch's infinity; the
  source only compares the scalar with 0 and 1.
\<close>

fun doublings :: "nat \<Rightarrow> real \<Rightarrow> nat" where
  "doublings 0 x = 0"
| "doublings (Suc fuel) x = (if 1 \<le> x then 0 else Suc (doublings fuel (2 * x)))"

fun halvings :: "nat \<Rightarrow> real \<Rightarrow> nat" where
  "halvings 0 x = 0"
| "halvings (Suc fuel) x = (if x < 2 then 0 else Suc (halvings fuel (x / 2)))"

definition float32_exponent :: "real \<Rightarrow> int" where
  "float32_exponent x =
     (if 1 \<le> \<bar>x\<bar> then int (halvings 128 \<bar>x\<bar>) else - int (doublings 126 \<bar>x\<bar>))"

definition round_half_even :: "real \<Rightarrow> int" where
  "round_half_even y =
     (let f = \<lfloor>y\<rfloor>; r = y - of_int f
      in if r < 1 / 2 then f else if 1 / 2 < r then f + 1 else if even f then f else f + 1)"

definition to_float32 :: "real \<Rightarrow> real" where
  "to_float32 x =
     (let ulp = 2 powi (float32_exponent x - 23)
      in of_int (round_half_even (x / ulp)) * ulp)"

text \<open>
  A Python number given for a \<^verbatim>\<open>float\<close> parameter is a float or an int, and
  \<^verbatim>\<open>torch.tensor\<close> of it is a \<^verbatim>\<open>float32\<close> or an \<^verbatim>\<open>int64\<close> scalar; an int outside
  the 64-bit range raises a RuntimeError.
\<close>

datatype py_number = PyFloat real | PyInt int

datatype scalar_tensor = Float32 real | Int64 int

fun number_value :: "py_number \<Rightarrow> real" where
  "number_value (PyFloat x) = x"
| "number_value (PyInt i) = of_int i"

fun tensor_value :: "scalar_tensor \<Rightarrow> real" where
  "tensor_value (Float32 x) = x"
| "tensor_value (Int64 i) = of_int i"

fun torch_tensor :: "py_number \<Rightarrow> error + scalar_tensor" where
  "torch_tensor (PyFloat x) = Inr (Float32 (to_float32 x))"
| "torch_tensor (PyInt i) =
     (if - (2 ^ 63) \<le> i \<and> i < 2 ^ 63 then Inr (Int64 i) else Inl RuntimeError)"


section \<open>The random number generator\<close>

text \<open>
  The source draws from torch's global generator. The generator is an explicit state
  \<open>'g\<close> here, and each sampling function of torch that the source calls takes the
  state and returns the sample with the next state:
  \<^item> \<^verbatim>\<open>Bernoulli(probs=p).sample((n,))\<close>: a tensor of \<open>n\<close> draws, given by its entries;
  \<^item> \<^verbatim>\<open>torch.randperm(n)\<close>: a tensor of \<open>n\<close> indices;
  \<^item> \<^verbatim>\<open>torch.randn(n)\<close>: a tensor of \<open>n\<close> reals, given by its entries.
\<close>

record 'g torch_rng =
  bernoulli_sample :: "real \<Rightarrow> nat \<Rightarrow> 'g \<Rightarrow> (nat \<Rightarrow> bool) \<times> 'g"
  randperm :: "nat \<Rightarrow> 'g \<Rightarrow> nat list \<times> 'g"
  randn :: "nat \<Rightarrow> 'g \<Rightarrow> (nat \<Rightarrow> real) \<times> 'g"

text \<open>
  What torch guarantees of these functions, whatever the state: \<^verbatim>\<open>randperm(n)\<close> is a
  permutation of \<open>0, \<dots>, n - 1\<close>, and a Bernoulli draw with probability 1 is 1.
\<close>

definition rng_contract :: "'g torch_rng \<Rightarrow> bool" where
  "rng_contract R \<longleftrightarrow>
     (\<forall>n g. mset (fst (randperm R n g)) = mset [0..<n]) \<and>
     (\<forall>n g i. i < n \<longrightarrow> fst (bernoulli_sample R 1 n g) i)"


section \<open>Backgrounds and masks (\<^verbatim>\<open>spuco_mnist.py\<close>)\<close>

datatype SpuriousFeatureDifficulty =
    MAGNITUDE_EASY
  | MAGNITUDE_MEDIUM
  | MAGNITUDE_HARD
  | VARIANCE_EASY
  | VARIANCE_MEDIUM
  | VARIANCE_HARD

type_synonym rgb = "real list"

text \<open>\<^verbatim>\<open>torch.tensor(rgb).unsqueeze(1).unsqueeze(2).repeat(1, 28, 28)\<close>\<close>

definition rgb_to_mnist_background :: "rgb \<Rightarrow> tensor" where
  "rgb_to_mnist_background colour = (\<lambda>c r k. colour ! c)"

text \<open>
  \<^verbatim>\<open>compute_mask\<close>: \<^verbatim>\<open>mask[:, rows, cols] = 1.\<close> on a tensor of zeros sets, in every
  channel, the entries at the listed points; a row or a column outside the canvas is an
  IndexError.
\<close>

definition compute_mask :: "(nat \<times> nat) list \<Rightarrow> error + tensor" where
  "compute_mask unmask_points =
     (let rows = map fst unmask_points; cols = map snd unmask_points
      in if list_all (\<lambda>r. r < 28) rows \<and> list_all (\<lambda>k. k < 28) cols
         then Inr (\<lambda>c r k. if (r, k) \<in> set (zip rows cols) then 1 else zeros c r k)
         else Inl IndexError)"

text \<open>
  The \<^verbatim>\<open>if\<close>/\<^verbatim>\<open>elif\<close> chain of \<^verbatim>\<open>create_background\<close> that binds \<^verbatim>\<open>mask\<close>.
  MAGNITUDE_EASY returns the background before any mask is made (\<open>None\<close>). The two
  random levels index the grid's points with the first 49 entries of a random
  permutation.
\<close>

definition difficulty_mask ::
  "'g torch_rng \<Rightarrow> SpuriousFeatureDifficulty \<Rightarrow> 'g \<Rightarrow> (error + tensor) option \<times> 'g" where
  "difficulty_mask R spurious_feature_difficulty g =
     (case spurious_feature_difficulty of
        MAGNITUDE_EASY \<Rightarrow> (None, g)
      | MAGNITUDE_MEDIUM \<Rightarrow> (Some (compute_mask (List.product [0..<4] [0..<4])), g)
      | MAGNITUDE_HARD \<Rightarrow> (Some (compute_mask (List.product [0..<2] [0..<2])), g)
      | VARIANCE_EASY \<Rightarrow> (Some (compute_mask (List.product [0..<7] [0..<7])), g)
      | VARIANCE_MEDIUM \<Rightarrow>
          (let all_points = List.product [0..<14] [0..<14];
               (perm, g') = randperm R (length all_points) g
           in (Some (case index_select all_points (take 49 perm) of
                       Inl e \<Rightarrow> Inl e
                     | Inr unmask_points \<Rightarrow> compute_mask unmask_points), g'))
      | VARIANCE_HARD \<Rightarrow>
          (let all_points = List.product [0..<28] [0..<28];
               (perm, g') = randperm R (length all_points) g
           in (Some (case index_select all_points (take 49 perm) of
                       Inl e \<Rightarrow> Inl e
                     | Inr unmask_points \<Rightarrow> compute_mask unmask_points), g')))"

definition create_background ::
  "'g torch_rng \<Rightarrow> SpuriousFeatureDifficulty \<Rightarrow> rgb \<Rightarrow> 'g \<Rightarrow> (error + tensor) \<times> 'g" where
  "create_background R spurious_feature_difficulty colour g =
     (let background = rgb_to_mnist_background colour
      in case difficulty_mask R spurious_feature_difficulty g of
           (None, g') \<Rightarrow> (Inr background, g')
         | (Some (Inl e), g') \<Rightarrow> (Inl e, g')
         | (Some (Inr msk), g') \<Rightarrow> (Inr (tmul background msk), g'))"

text \<open>The number of entries of channel \<open>c\<close> of a mask that are 1.\<close>

definition unmasked_count :: "tensor \<Rightarrow> nat \<Rightarrow> nat" where
  "unmasked_count msk c = length (filter (\<lambda>(r, k). msk c r k = 1) canvas)"

text \<open>
  A mask is binary-valued, has \<open>n\<close> unmasked entries in every channel, and they lie in
  the top-left \<open>side \<times> side\<close> corner of the canvas.
\<close>

definition binary_mask_with :: "tensor \<Rightarrow> nat \<Rightarrow> nat \<Rightarrow> bool" where
  "binary_mask_with msk n side \<longleftrightarrow>
     (\<forall>c r k. msk c r k = 0 \<or> msk c r k = 1) \<and>
     (\<forall>c. unmasked_count msk c = n) \<and>
     (\<forall>c r k. msk c r k = 1 \<longrightarrow> r < side \<and> k < side)"

text \<open>
  At a difficulty level, from generator state \<open>g\<close>, \<^verbatim>\<open>create_background\<close> makes a
  mask with \<open>n\<close> unmasked entries per channel inside the top-left \<open>side \<times> side\<close> corner
  and returns the background multiplied by it.
\<close>

definition produces_mask ::
  "'g torch_rng \<Rightarrow> SpuriousFeatureDifficulty \<Rightarrow> rgb \<Rightarrow> 'g \<Rightarrow> nat \<Rightarrow> nat \<Rightarrow> bool" where
  "produces_mask R d colour g n side \<longleftrightarrow>
     (\<exists>msk g'. difficulty_mask R d g = (Some (Inr msk), g') \<and>
        create_background R d colour g = (Inr (tmul (rgb_to_mnist_background colour) msk), g') \<and>
        binary_mask_with msk n side)"


section \<open>A deterministic generator\<close>

text \<open>
  A generator without state that meets the contract, used to run the model on sample
  inputs: a Bernoulli draw is 1 exactly when the probability is 1, a permutation is the
  reversal, and normal draws alternate in sign.
\<close>

definition fixed_rng :: "unit torch_rng" where
  "fixed_rng =
     \<lparr> bernoulli_sample = (\<lambda>p n g. (\<lambda>i. 1 \<le> p, g)),
       randperm = (\<lambda>n g. (rev [0..<n], g)),
       randn = (\<lambda>n g. (\<lambda>i. if even i then 1 else - 1, g)) \<rparr>"


section \<open>Partitioning indices by label\<close>

text \<open>
  Both files build a group partition with the same loop:
  \<^verbatim>\<open>
  partition = {}
  for i, label in enumerate(labels):
      if label not in partition:
          partition[label] = []
      partition[label].append(i)
  \<close>
  A Python dictionary keeps its keys in insertion order, and \<^verbatim>\<open>load_data\<close> later
  iterates over the keys, so the dictionary is an association list in insertion order.
\<close>

type_synonym 'k group_partition = "('k \<times> nat list) list"

definition dict_append :: "'k \<Rightarrow> nat \<Rightarrow> 'k group_partition \<Rightarrow> 'k group_partition" where
  "dict_append label i d =
     (let d' = (if map_of d label = None then d @ [(label, [])] else d)
      in map (\<lambda>(key, v). if key = label then (key, v @ [i]) else (key, v)) d')"

definition partition_indices :: "'k list \<Rightarrow> 'k group_partition" where
  "partition_indices lbls = fold (\<lambda>(i, label) d. dict_append label i d) (enumerate 0 lbls) []"

text \<open>
  A group partition is an exact partition of \<open>{0, \<dots>, n - 1}\<close>: its keys are distinct,
  and the groups' lists together hold every index below \<open>n\<close> exactly once.
\<close>

definition exact_partition :: "'k group_partition \<Rightarrow> nat \<Rightarrow> bool" where
  "exact_partition d n \<longleftrightarrow>
     distinct (map fst d) \<and> mset (concat (map snd d)) = mset [0..<n]"


section \<open>Group inference (\<^verbatim>\<open>eiil.py\<close>)\<close>

text \<open>
  The two leaf tensors of the computation that require a gradient. A one-dimensional
  tensor is given by its entries; \<^verbatim>\<open>scale\<close> is a scalar, read at index 0.
\<close>

datatype leaf = Scale | Env_w

text \<open>
  The state of the training loop: the data and the accumulated \<^verbatim>\<open>.grad\<close> of each leaf
  (\<open>None\<close> before the first backward pass and after \<^verbatim>\<open>zero_grad\<close>), and the optimizer's
  own state (Adam's moments and step count).
\<close>

record 'o train_state =
  data_of :: "leaf \<Rightarrow> nat \<Rightarrow> real"
  grad_of :: "leaf \<Rightarrow> (nat \<Rightarrow> real) option"
  optim_state :: 'o

text \<open>
  The numerics of torch the loop calls, as parameters:
  \<^item> \<open>npenalty_grad logits lbls data\<close>: the gradient of \<^verbatim>\<open>npenalty\<close> with respect to
    each leaf, at the leaves' current data (cross-entropy of the scaled logits, sigmoid
    weighting, the two squared gradient penalties, all differentiated by autograd);
  \<^item> \<open>adam_update lr st p g\<close>: Adam's new value of a parameter \<open>p\<close> with gradient \<open>g\<close>,
    and its new state;
  \<^item> \<open>adam_init\<close>: the optimizer's state at construction;
  \<^item> \<open>sigmoid\<close>.
\<close>

record 'o torch_numerics =
  npenalty_grad :: "real list list \<Rightarrow> int list \<Rightarrow> (leaf \<Rightarrow> nat \<Rightarrow> real) \<Rightarrow> leaf \<Rightarrow> nat \<Rightarrow> real"
  adam_update :: "real \<Rightarrow> 'o \<Rightarrow> (nat \<Rightarrow> real) \<Rightarrow> (nat \<Rightarrow> real) \<Rightarrow> (nat \<Rightarrow> real) \<times> 'o"
  adam_init :: 'o
  sigmoid :: "real \<Rightarrow> real"

text \<open>\<^verbatim>\<open>optimizer.zero_grad()\<close>: clears the gradient of the optimizer's parameters.\<close>

definition zero_grad :: "leaf list \<Rightarrow> 'o train_state \<Rightarrow> 'o train_state" where
  "zero_grad params s = s\<lparr>grad_of := (\<lambda>p. if p \<in> set params then None else grad_of s p)\<rparr>"

text \<open>
  \<^verbatim>\<open>npenalty.backward(retain_graph=True)\<close>: adds the gradient to \<^verbatim>\<open>.grad\<close> of every
  leaf of the graph, \<^verbatim>\<open>scale\<close> included.
\<close>

definition backward :: "(leaf \<Rightarrow> nat \<Rightarrow> real) \<Rightarrow> 'o train_state \<Rightarrow> 'o train_state" where
  "backward g s =
     s\<lparr>grad_of := (\<lambda>p. Some (case grad_of s p of
                                None \<Rightarrow> g p
                              | Some a \<Rightarrow> (\<lambda>i. a i + g p i)))\<rparr>"

text \<open>
  \<^verbatim>\<open>optimizer.step()\<close>: updates each of the optimizer's parameters that has a
  gradient.
\<close>

definition optimizer_step ::
  "'o torch_numerics \<Rightarrow> real \<Rightarrow> leaf list \<Rightarrow> 'o train_state \<Rightarrow> 'o train_state" where
  "optimizer_step N lr params s =
     fold (\<lambda>p s. case grad_of s p of
                   None \<Rightarrow> s
                 | Some g \<Rightarrow>
                     (let (v, st) = adam_update N lr (optim_state s) (data_of s p) g
                      in s\<lparr>data_of := (data_of s)(p := v), optim_state := st\<rparr>))
          params s"

text \<open>One iteration of the loop; the optimizer was built as \<^verbatim>\<open>optim.Adam([env_w], lr)\<close>.\<close>

definition optimizer_params :: "leaf list" where
  "optimizer_params = [Env_w]"

definition train_step ::
  "'o torch_numerics \<Rightarrow> real list list \<Rightarrow> int list \<Rightarrow> real \<Rightarrow> 'o train_state \<Rightarrow> 'o train_state" where
  "train_step N logits lbls lr s =
     (let g = npenalty_grad N logits lbls (data_of s)
      in optimizer_step N lr optimizer_params (backward g (zero_grad optimizer_params s)))"

text \<open>The initialisation: \<^verbatim>\<open>scale\<close> is 1 and \<^verbatim>\<open>env_w\<close> is drawn by \<^verbatim>\<open>torch.randn\<close>.\<close>

definition initial_state :: "'o torch_numerics \<Rightarrow> (nat \<Rightarrow> real) \<Rightarrow> 'o train_state" where
  "initial_state N w =
     \<lparr> data_of = (\<lambda>p. case p of Scale \<Rightarrow> (\<lambda>i. 1) | Env_w \<Rightarrow> w),
       grad_of = (\<lambda>p. None),
       optim_state = adam_init N \<rparr>"

definition train_assignment ::
  "'o torch_numerics \<Rightarrow> real list list \<Rightarrow> int list \<Rightarrow> real \<Rightarrow> nat \<Rightarrow> 'o train_state \<Rightarrow> 'o train_state" where
  "train_assignment N logits lbls lr num_steps s = ((train_step N logits lbls lr) ^^ num_steps) s"

text \<open>The hardening \<^verbatim>\<open>(env_w.sigmoid() > .5).int()\<close>.\<close>

definition harden :: "'o torch_numerics \<Rightarrow> (nat \<Rightarrow> real) \<Rightarrow> nat \<Rightarrow> int list" where
  "harden N env_w n = map (\<lambda>i. if sigmoid N (env_w i) > 1 / 2 then 1 else 0) [0..<n]"

text \<open>
  The refinement \<^verbatim>\<open>group_labels[self.labels==1] += 2\<close> indexes a numpy array with a
  torch boolean tensor. numpy reads a tensor of one element as the integer index it
  converts to (0 for False, 1 for True), and a tensor of any other length as a boolean
  mask, which must have the array's length.
\<close>

definition refine_by_label :: "int list \<Rightarrow> int list \<Rightarrow> error + int list" where
  "refine_by_label group_labels lbls =
     (if length lbls = 1 then
        (let idx = (if lbls ! 0 = 1 then 1 else 0)
         in if idx < length group_labels
            then Inr (group_labels[idx := group_labels ! idx + 2])
            else Inl IndexError)
      else if length lbls \<noteq> length group_labels then Inl IndexError
      else Inr (map (\<lambda>(g, l). if l = 1 then g + 2 else g) (zip group_labels lbls)))"

text \<open>
  What \<^verbatim>\<open>nn.CrossEntropyLoss\<close> checks of \<open>N\<close> rows of logits and the labels: as many
  labels as rows (ValueError), and every label a column of the logits or the ignored
  index \<open>-100\<close> (IndexError).
\<close>

definition num_columns :: "real list list \<Rightarrow> nat" where
  "num_columns logits = (case logits of [] \<Rightarrow> 0 | row # rest \<Rightarrow> length row)"

definition cross_entropy_check :: "real list list \<Rightarrow> int list \<Rightarrow> error + unit" where
  "cross_entropy_check logits lbls =
     (if length lbls \<noteq> length logits then Inl ValueError
      else if list_all (\<lambda>l. (0 \<le> l \<and> l < int (num_columns logits)) \<or> l = - 100) lbls
        then Inr ()
      else Inl IndexError)"

text \<open>
  \<^verbatim>\<open>env_w\<close> after the loop, and the group labels \<^verbatim>\<open>infer_groups\<close> partitions by.
\<close>

definition trained_env_w ::
  "'g torch_rng \<Rightarrow> 'o torch_numerics \<Rightarrow> real list list \<Rightarrow> int list \<Rightarrow> nat \<Rightarrow> real \<Rightarrow> 'g \<Rightarrow>
     nat \<Rightarrow> real" where
  "trained_env_w R N logits lbls num_steps lr g =
     (let (w, g') = randn R (length logits) g;
          s = train_assignment N logits lbls lr num_steps (initial_state N w)
      in data_of s Env_w)"

definition infer_group_labels ::
  "'g torch_rng \<Rightarrow> 'o torch_numerics \<Rightarrow> real list list \<Rightarrow> int list \<Rightarrow> nat \<Rightarrow> real \<Rightarrow> 'g \<Rightarrow>
     error + int list" where
  "infer_group_labels R N logits lbls num_steps lr g =
     (case cross_entropy_check logits lbls of
        Inl e \<Rightarrow> Inl e
      | Inr u \<Rightarrow>
          (let group_labels = harden N (trained_env_w R N logits lbls num_steps lr g) (length logits)
           in refine_by_label group_labels lbls))"

text \<open>\<^verbatim>\<open>infer_groups\<close>: the partition of the indices by these group labels.\<close>

definition infer_groups ::
  "'g torch_rng \<Rightarrow> 'o torch_numerics \<Rightarrow> real list list \<Rightarrow> int list \<Rightarrow> nat \<Rightarrow> real \<Rightarrow> 'g \<Rightarrow>
     error + int group_partition" where
  "infer_groups R N logits lbls num_steps lr g =
     (case infer_group_labels R N logits lbls num_steps lr g of
        Inl e \<Rightarrow> Inl e
      | Inr group_labels \<Rightarrow> Inr (partition_indices group_labels))"

text \<open>A stand-in for the numerics, used on sample inputs: plain gradient steps.\<close>

definition sample_numerics :: "unit torch_numerics" where
  "sample_numerics =
     \<lparr> npenalty_grad = (\<lambda>logits lbls d p i. d Env_w i),
       adam_update = (\<lambda>lr st p g. (\<lambda>i. p i - lr * g i, st)),
       adam_init = (),
       sigmoid = (\<lambda>x. if x > 0 then 3 / 4 else 1 / 4) \<rparr>"


section \<open>The dataset builder (\<^verbatim>\<open>spuco_mnist.py\<close>)\<close>

text \<open>The fields of a \<^verbatim>\<open>SpuCoMNIST\<close> object that \<^verbatim>\<open>load_data\<close> reads.\<close>

record spuco_mnist =
  spurious_feature_difficulty :: SpuriousFeatureDifficulty
  classes :: "int list list"
  spurious_correlation_strength :: py_number
  train :: bool
  colors :: "rgb list"

text \<open>The default of the constructor's \<^verbatim>\<open>spurious_correlation_strength\<close>: not set.\<close>

definition unset_strength :: py_number where
  "unset_strength = PyFloat (- 1)"

text \<open>
  \<^verbatim>\<open>init_colors\<close>, with the colour map of matplotlib as a parameter: one colour for each
  latent class, at the evenly spaced values \<open>i / k\<close>, and black appended last. The step
  \<^verbatim>\<open>1 / len(self.classes)\<close> divides by zero when there is no class.
\<close>

definition init_colors :: "(real \<Rightarrow> real list) \<Rightarrow> int list list \<Rightarrow> error + rgb list" where
  "init_colors color_map cls =
     (if length cls = 0 then Inl ZeroDivisionError
      else Inr (map (\<lambda>i. take 3 (color_map (real i * (1 / real (length cls))))) [0..<length cls]
                @ [[0, 0, 0]]))"

text \<open>
  \<^verbatim>\<open>validate_classes\<close>: for each class in turn, first its range check, then its
  intersection with each later class; the first failure returns False.
\<close>

fun validate_sets :: "int set list \<Rightarrow> bool" where
  "validate_sets [] = True"
| "validate_sets (s # later) =
     (if \<exists>x \<in> s. x < 0 \<or> x > 9 then False
      else if \<exists>t \<in> set later. s \<inter> t \<noteq> {} then False
      else validate_sets later)"

definition validate_classes :: "int list list \<Rightarrow> bool" where
  "validate_classes cls = validate_sets (map set cls)"

text \<open>
  The relabelling loop. \<^verbatim>\<open>label\<close> is the raw label read by \<^verbatim>\<open>enumerate\<close>; every
  class that contains it overwrites \<^verbatim>\<open>labels[i]\<close> and appends \<open>i\<close> to \<^verbatim>\<open>kept\<close>.
\<close>

definition relabel_sample :: "int list list \<Rightarrow> nat \<times> int \<Rightarrow> int list \<times> nat list \<Rightarrow> int list \<times> nat list" where
  "relabel_sample cls = (\<lambda>(i, label).
     fold (\<lambda>(class_idx, latent_class) (ls, kept).
             if label \<in> set latent_class then (ls[i := int class_idx], kept @ [i]) else (ls, kept))
          (enumerate 0 cls))"

definition get_new_labels :: "int list list \<Rightarrow> int list \<Rightarrow> int list \<times> nat list" where
  "get_new_labels cls raw = fold (relabel_sample cls) (enumerate 0 raw) (raw, [])"

text \<open>
  What \<^verbatim>\<open>load_data\<close> builds: the kept images and their new labels (\<^verbatim>\<open>self.data\<close>), the
  partition by new label, the spurious class of each kept sample, and the generator's
  state.
\<close>

record 'g spuco_data =
  X :: "tensor list"
  labels :: "int list"
  partition_dict :: "int group_partition"
  spurious :: "int list"
  gen :: 'g

text \<open>
  The body of the inner loop, for the \<open>i\<close>-th index \<open>idx\<close> of a group:
  \<^verbatim>\<open>
  self.spurious[idx] = background_label[i].item()
  background = create_background(difficulty, self.colors[self.spurious[idx]])
  self.data.X[idx] = (background * (self.data.X[idx] == 0)) + self.data.X[idx]
  \<close>
  \<open>idx\<close> enumerates the kept samples, so it is an index of both lists.
\<close>

definition paint_sample ::
  "'g torch_rng \<Rightarrow> spuco_mnist \<Rightarrow> int list \<Rightarrow> nat \<times> nat \<Rightarrow> 'g spuco_data \<Rightarrow> error + 'g spuco_data" where
  "paint_sample R self background_label = (\<lambda>(i, idx) d.
     case getitem background_label i of
       Inl e \<Rightarrow> Inl e
     | Inr v \<Rightarrow>
         (let sp = (spurious d)[idx := v]
          in case py_getitem (colors self) (sp ! idx) of
               Inl e \<Rightarrow> Inl e
             | Inr colour \<Rightarrow>
                 (case create_background R (spurious_feature_difficulty self) colour (gen d) of
                    (Inl e, g') \<Rightarrow> Inl e
                  | (Inr background, g') \<Rightarrow>
                      Inr (d\<lparr>spurious := sp,
                              X := (X d)[idx := composite background (X d ! idx)],
                              gen := g'\<rparr>))))"

text \<open>
  The training loop's list comprehension
  \<^verbatim>\<open>[label if spurious_or_not[i] else other_labels[i % len(other_labels)] for i in range(n)]\<close>:
  the remainder is taken only when the draw is 0, and raises when \<^verbatim>\<open>other_labels\<close> is
  empty.
\<close>

definition train_background_label :: "int \<Rightarrow> (nat \<Rightarrow> bool) \<Rightarrow> int list \<Rightarrow> nat \<Rightarrow> error + int list" where
  "train_background_label label spurious_or_not other_labels n =
     map_err (\<lambda>i. if spurious_or_not i then Inr label
                   else if length other_labels = 0 then Inl ZeroDivisionError
                   else Inr (other_labels ! (i mod length other_labels)))
             [0..<n]"

text \<open>The evaluation loop's \<^verbatim>\<open>[i % len(self.classes) for i in range(n)]\<close>.\<close>

definition test_background_label :: "nat \<Rightarrow> nat \<Rightarrow> error + int list" where
  "test_background_label k n =
     map_err (\<lambda>i. if k = 0 then Inl ZeroDivisionError else Inr (int (i mod k))) [0..<n]"

text \<open>The shuffle \<^verbatim>\<open>background_label[torch.randperm(len(background_label))]\<close> and the inner loop.\<close>

definition shuffle_and_paint ::
  "'g torch_rng \<Rightarrow> spuco_mnist \<Rightarrow> int list \<Rightarrow> nat list \<Rightarrow> 'g spuco_data \<Rightarrow> error + 'g spuco_data" where
  "shuffle_and_paint R self background_label idxs d =
     (let (perm, g') = randperm R (length background_label) (gen d)
      in case index_select background_label perm of
           Inl e \<Rightarrow> Inl e
         | Inr shuffled \<Rightarrow> fold_err (paint_sample R self shuffled) (enumerate 0 idxs) (d\<lparr>gen := g'\<rparr>))"

text \<open>
  \<^verbatim>\<open>spurious_distribution.sample((n,))\<close>, for the distribution built from the scalar
  \<^verbatim>\<open>probs\<close>: \<^verbatim>\<open>torch.bernoulli\<close> draws from a \<^verbatim>\<open>float32\<close> tensor of probabilities
  and raises a RuntimeError on an \<^verbatim>\<open>int64\<close> one.
\<close>

definition distribution_sample ::
  "'g torch_rng \<Rightarrow> scalar_tensor \<Rightarrow> nat \<Rightarrow> 'g \<Rightarrow> error + (nat \<Rightarrow> bool) \<times> 'g" where
  "distribution_sample R probs n g =
     (case probs of
        Float32 p \<Rightarrow> Inr (bernoulli_sample R p n g)
      | Int64 i \<Rightarrow> Inl RuntimeError)"

text \<open>The body of the training loop over \<^verbatim>\<open>self.partition.keys()\<close>.\<close>

definition train_group ::
  "'g torch_rng \<Rightarrow> spuco_mnist \<Rightarrow> scalar_tensor \<Rightarrow> int \<times> nat list \<Rightarrow> 'g spuco_data \<Rightarrow>
     error + 'g spuco_data" where
  "train_group R self probs = (\<lambda>(label, idxs) d.
     case distribution_sample R probs (length idxs) (gen d) of
       Inl e \<Rightarrow> Inl e
     | Inr (spurious_or_not, g') \<Rightarrow>
         (let other_labels = filter (\<lambda>x. x \<noteq> label) (map int [0..<length (classes self)])
          in case train_background_label label spurious_or_not other_labels (length idxs) of
               Inl e \<Rightarrow> Inl e
             | Inr background_label \<Rightarrow>
                 shuffle_and_paint R self background_label idxs (d\<lparr>gen := g'\<rparr>)))"

text \<open>The body of the evaluation loop.\<close>

definition test_group ::
  "'g torch_rng \<Rightarrow> spuco_mnist \<Rightarrow> int \<times> nat list \<Rightarrow> 'g spuco_data \<Rightarrow> error + 'g spuco_data" where
  "test_group R self = (\<lambda>(label, idxs) d.
     case test_background_label (length (classes self)) (length idxs) of
       Inl e \<Rightarrow> Inl e
     | Inr background_label \<Rightarrow> shuffle_and_paint R self background_label idxs d)"

definition classes_message :: string where
  "classes_message = ''Classes should be disjoint and only contain elements 0<= label <= 9''"

definition strength_message :: string where
  "strength_message = ''spurious correlation strength must be specified for train=True''"

text \<open>
  The first part of \<^verbatim>\<open>load_data\<close>, from the samples of the MNIST split (image and
  raw label): the new labels, the kept samples, the partition by new label, and the
  spurious vector \<^verbatim>\<open>[-1] * len(self.data.X)\<close>.
\<close>

definition kept_data :: "spuco_mnist \<Rightarrow> (tensor \<times> int) list \<Rightarrow> 'g \<Rightarrow> 'g spuco_data" where
  "kept_data self mnist g =
     (let (ls, kept) = get_new_labels (classes self) (map snd mnist);
          xs = map (\<lambda>i. map fst mnist ! i) kept;
          new_labels = map (\<lambda>i. ls ! i) kept
      in \<lparr> X = xs,
           labels = new_labels,
           partition_dict = partition_indices new_labels,
           spurious = replicate (length xs) (- 1),
           gen = g \<rparr>)"

text \<open>
  \<^verbatim>\<open>load_data\<close>. In training mode the strength is asserted to be at least 0; this is
  the only test the source makes of it. \<^verbatim>\<open>torch.tensor\<close> then makes it a scalar, and
  \<^verbatim>\<open>torch.distributions.Bernoulli(probs=...)\<close> validates the scalar, raising a
  ValueError when it is outside \<open>[0, 1]\<close>.
\<close>

definition load_data ::
  "'g torch_rng \<Rightarrow> spuco_mnist \<Rightarrow> (tensor \<times> int) list \<Rightarrow> 'g \<Rightarrow> error + 'g spuco_data" where
  "load_data R self mnist g =
     (if \<not> validate_classes (classes self) then Inl (AssertionError classes_message)
      else
        let d = kept_data self mnist g
        in if train self then
             if \<not> (number_value (spurious_correlation_strength self) \<ge> 0)
               then Inl (AssertionError strength_message)
             else case torch_tensor (spurious_correlation_strength self) of
                    Inl e \<Rightarrow> Inl e
                  | Inr probs \<Rightarrow>
                      if \<not> (0 \<le> tensor_value probs \<and> tensor_value probs \<le> 1)
                        then Inl ValueError
                      else fold_err (train_group R self probs) (partition_dict d) d
           else fold_err (test_group R self) (partition_dict d) d)"

text \<open>
  The loop body that \<^verbatim>\<open>load_data\<close> runs over the groups: the evaluation loop's, or
  the training loop's with the scalar made from the strength.
\<close>

definition loop_body_of ::
  "'g torch_rng \<Rightarrow> spuco_mnist \<Rightarrow> (int \<times> nat list \<Rightarrow> 'g spuco_data \<Rightarrow> error + 'g spuco_data) \<Rightarrow> bool" where
  "loop_body_of R self body \<longleftrightarrow>
     (if train self
      then \<exists>probs. torch_tensor (spurious_correlation_strength self) = Inr probs \<and>
                   body = train_group R self probs
      else body = test_group R self)"

text \<open>Failing on the correlation strength: the assertion, or the Bernoulli's validation.\<close>

definition strength_error :: "error \<Rightarrow> bool" where
  "strength_error e \<longleftrightarrow> e = AssertionError strength_message \<or> e = ValueError"

text \<open>
  What the specification says of the relabelling, to compare \<^verbatim>\<open>load_data\<close> with: the
  latent class of a raw label is the index of the class that contains it, and the
  samples kept are those whose raw label has a latent class, in their order.
\<close>

fun latent_class :: "int list list \<Rightarrow> int \<Rightarrow> nat option" where
  "latent_class [] l = None"
| "latent_class (c # cs) l = (if l \<in> set c then Some 0 else map_option Suc (latent_class cs l))"

definition kept_indices :: "int list list \<Rightarrow> int list \<Rightarrow> nat list" where
  "kept_indices cls raw = filter (\<lambda>i. latent_class cls (raw ! i) \<noteq> None) [0..<length raw]"

text \<open>
  An image \<open>x\<close> is the image \<open>x0\<close> composited with a background that
  \<^verbatim>\<open>create_background\<close> returns, at some state of the generator, for the palette's
  colour of the spurious class \<open>v\<close>.
\<close>

definition painted :: "'g torch_rng \<Rightarrow> spuco_mnist \<Rightarrow> int \<Rightarrow> tensor \<Rightarrow> tensor \<Rightarrow> bool" where
  "painted R self v x0 x \<longleftrightarrow>
     (\<exists>colour background gs gs'.
        py_getitem (colors self) v = Inr colour \<and>
        create_background R (spurious_feature_difficulty self) colour gs = (Inr background, gs') \<and>
        x = composite background x0)"



section \<open>Sample inputs\<close>

definition sample_image :: tensor where
  "sample_image = (\<lambda>c r k. if r = 5 then 1 / 2 else 0)"

definition sample_mnist :: "(tensor \<times> int) list" where
  "sample_mnist = [(sample_image, 0), (sample_image, 2), (sample_image, 7), (sample_image, 1), (sample_image, 3)]"

definition sample_colors :: "rgb list" where
  "sample_colors = [[1, 0, 0], [0, 1, 1], [0, 0, 0]]"

definition sample_dataset :: "bool \<Rightarrow> py_number \<Rightarrow> spuco_mnist" where
  "sample_dataset tr s =
     \<lparr> spurious_feature_difficulty = MAGNITUDE_HARD,
       classes = [[0, 1], [2, 3]],
       spurious_correlation_strength = s,
       train = tr,
       colors = sample_colors \<rparr>"
section \<open>Rounding to single precision\<close>

lemma round_half_even_ge: "of_int k \<le> y \<Longrightarrow> k \<le> round_half_even y"
proof -
  assume "of_int k \<le> y"
  then have "k \<le> \<lfloor>y\<rfloor>" by (simp add: le_floor_iff)
  then show ?thesis by (auto simp: round_half_even_def Let_def)
qed

lemma round_half_even_le: "y \<le> of_int k \<Longrightarrow> round_half_even y \<le> k"
proof -
  assume y: "y \<le> of_int k"
  show ?thesis
  proof (cases "y = of_int k")
    case True
    then show ?thesis by (simp add: round_half_even_def Let_def)
  next
    case False
    then have "y < of_int k" using y by simp
    then have "\<lfloor>y\<rfloor> < k" by (simp add: floor_less_iff)
    then show ?thesis by (auto simp: round_half_even_def Let_def)
  qed
qed

lemma round_half_even_stays:
  assumes "of_int k \<le> y" "y \<le> of_int k + 1 / 2" "even k"
  shows "round_half_even y = k"
proof -
  have "\<lfloor>y\<rfloor> = k" using assms by (intro floor_unique) auto
  then show ?thesis using assms by (auto simp: round_half_even_def Let_def)
qed

lemma round_half_even_up:
  assumes "of_int k + 1 / 2 < y"
  shows "k + 1 \<le> round_half_even y"
proof -
  have k: "k \<le> \<lfloor>y\<rfloor>" using assms by (simp add: le_floor_iff)
  show ?thesis
  proof (cases "\<lfloor>y\<rfloor> = k")
    case True
    then have "1 / 2 < y - of_int \<lfloor>y\<rfloor>" using assms by simp
    then show ?thesis using True by (simp add: round_half_even_def Let_def)
  next
    case False
    then have "k + 1 \<le> \<lfloor>y\<rfloor>" using k by simp
    then show ?thesis by (auto simp: round_half_even_def Let_def)
  qed
qed

lemma doublings_bound: "0 \<le> x \<Longrightarrow> x < 1 \<Longrightarrow> x * 2 ^ doublings fuel x < 2"
proof (induction fuel arbitrary: x)
  case 0
  then show ?case by simp
next
  case (Suc fuel)
  show ?case
  proof (cases "1 \<le> 2 * x")
    case True
    then have "doublings fuel (2 * x) = 0" by (cases fuel) simp_all
    then show ?thesis using Suc.prems by simp
  next
    case False
    then have "2 * x * 2 ^ doublings fuel (2 * x) < 2"
      using Suc.prems by (intro Suc.IH) simp_all
    then show ?thesis using Suc.prems by (simp add: mult.assoc mult.left_commute)
  qed
qed

lemma halvings_bound: "1 \<le> x \<Longrightarrow> 2 ^ halvings fuel x \<le> x"
proof (induction fuel arbitrary: x)
  case 0
  then show ?case by simp
next
  case (Suc fuel)
  show ?case
  proof (cases "x < 2")
    case True
    then show ?thesis using Suc.prems by simp
  next
    case False
    then have "2 ^ halvings fuel (x / 2) \<le> x / 2" by (intro Suc.IH) simp
    then show ?thesis using False by simp
  qed
qed

lemma doublings_pos: "x < 1 \<Longrightarrow> 1 \<le> doublings (Suc fuel) x"
  by simp

lemma halvings_small: "x < 2 \<Longrightarrow> halvings (Suc fuel) x = 0"
  by simp

lemma halvings_pos: "2 \<le> x \<Longrightarrow> 1 \<le> halvings (Suc fuel) x"
  by simp

lemma powi_neg: "(2::real) powi (- int n - 23) = 1 / 2 ^ (n + 23)"
proof -
  have "- int n - 23 = - int (n + 23)" by simp
  then have "(2::real) powi (- int n - 23) = inverse (2 powi int (n + 23))"
    by (simp only: power_int_minus)
  then show ?thesis by (simp only: power_int_of_nat inverse_eq_divide)
qed

lemma powi_shift: "(2::real) ^ 23 * 2 powi (int m - 23) = 2 ^ m"
proof -
  have "(2::real) powi (int m - 23) = 2 powi int m / 2 powi 23"
    by (rule power_int_diff) simp
  then show ?thesis by simp
qed

lemma exponent_below_one:
  assumes "0 \<le> x" "x < 1"
  shows "float32_exponent x = - int (doublings 126 x)" "1 \<le> doublings 126 x"
proof -
  show "float32_exponent x = - int (doublings 126 x)"
    using assms by (simp add: float32_exponent_def)
  have s: "(126::nat) = Suc 125" by simp
  show "1 \<le> doublings 126 x" unfolding s using assms(2) by (rule doublings_pos)
qed

lemma exponent_one_to_two:
  assumes "1 \<le> x" "x < 2"
  shows "float32_exponent x = 0"
proof -
  have s: "(128::nat) = Suc 127" by simp
  have "halvings 128 x = 0" unfolding s using assms(2) by (rule halvings_small)
  then show ?thesis using assms by (simp add: float32_exponent_def)
qed

lemma exponent_from_two:
  assumes "2 \<le> x"
  shows "float32_exponent x = int (halvings 128 x)" "1 \<le> halvings 128 x"
proof -
  show "float32_exponent x = int (halvings 128 x)"
    using assms by (simp add: float32_exponent_def)
  have s: "(128::nat) = Suc 127" by simp
  show "1 \<le> halvings 128 x" unfolding s using assms by (rule halvings_pos)
qed

lemma of_int_pow_le: "(2 ^ k :: int) \<le> r \<Longrightarrow> (2 ^ k :: real) \<le> of_int r"
proof -
  assume "(2 ^ k :: int) \<le> r"
  then have "(of_int (2 ^ k) :: real) \<le> of_int r" by (simp only: of_int_le_iff)
  then show ?thesis by simp
qed

lemma of_int_le_pow: "r \<le> (2 ^ k :: int) \<Longrightarrow> of_int r \<le> (2 ^ k :: real)"
proof -
  assume "r \<le> (2 ^ k :: int)"
  then have "(of_int r :: real) \<le> of_int (2 ^ k)" by (simp only: of_int_le_iff)
  then show ?thesis by simp
qed

lemma to_float32_unit:
  assumes "0 \<le> x" "x \<le> 1"
  shows "0 \<le> to_float32 x \<and> to_float32 x \<le> 1"
proof (cases "x = 1")
  case True
  have "float32_exponent 1 = 0" by (rule exponent_one_to_two) simp_all
  then show ?thesis unfolding True
    by (simp add: to_float32_def round_half_even_def Let_def)
next
  case False
  then have x: "0 \<le> x" "x < 1" using assms by simp_all
  define n where "n = doublings 126 x"
  have n1: "1 \<le> n" and e: "float32_exponent x = - int n"
    unfolding n_def using exponent_below_one [OF x] by simp_all
  define u :: real where "u = 1 / 2 ^ (n + 23)"
  have u0: "0 < u" by (simp add: u_def)
  have tf: "to_float32 x = of_int (round_half_even (x / u)) * u"
    unfolding to_float32_def Let_def e powi_neg u_def ..
  have xn: "x * 2 ^ n < 2" unfolding n_def by (rule doublings_bound [OF x])
  have "x / u = (x * 2 ^ n) * 2 ^ 23" by (simp add: u_def power_add)
  also have "\<dots> < 2 * 2 ^ 23" using xn by simp
  finally have y: "x / u \<le> of_int (2 ^ 24)" by simp
  have y0: "of_int 0 \<le> x / u" using x u0 by simp
  have "round_half_even (x / u) \<le> 2 ^ 24"
    using y by (rule round_half_even_le)
  then have "of_int (round_half_even (x / u)) \<le> (2 ^ 24 :: real)"
    by (rule of_int_le_pow)
  then have "of_int (round_half_even (x / u)) * u \<le> 2 ^ 24 * u"
    using u0 by simp
  also have "2 ^ 24 * u = 2 / 2 ^ n" by (simp add: u_def power_add)
  also have "\<dots> \<le> 1"
  proof -
    have "(2::real) ^ 1 \<le> 2 ^ n" using n1 by (intro power_increasing) simp_all
    then show ?thesis by simp
  qed
  finally have le: "to_float32 x \<le> 1" unfolding tf .
  have "0 \<le> round_half_even (x / u)"
    using y0 by (rule round_half_even_ge)
  then have "0 \<le> to_float32 x" unfolding tf using u0 by simp
  then show ?thesis using le by simp
qed

lemma to_float32_one_to_two:
  assumes "1 \<le> x" "x < 2"
  shows "to_float32 x = of_int (round_half_even (x * 2 ^ 23)) / 2 ^ 23"
  unfolding to_float32_def Let_def exponent_one_to_two [OF assms]
  by simp

lemma to_float32_rounds_to_one:
  assumes "1 \<le> x" "x \<le> 1 + 1 / 2 ^ 24"
  shows "to_float32 x = 1"
proof -
  have x2: "x < 2" using assms(2) by simp
  have "of_int (2 ^ 23) \<le> x * 2 ^ 23" using assms(1) by simp
  moreover have "x * 2 ^ 23 \<le> of_int (2 ^ 23) + 1 / 2" using assms(2) by simp
  ultimately have "round_half_even (x * 2 ^ 23) = 2 ^ 23"
    by (rule round_half_even_stays) simp
  then show ?thesis unfolding to_float32_one_to_two [OF assms(1) x2] by simp
qed

lemma to_float32_above_one:
  assumes "1 + 1 / 2 ^ 24 < x"
  shows "1 < to_float32 x"
proof (cases "x < 2")
  case True
  have x1: "1 \<le> x" using assms by simp
  have "of_int (2 ^ 23) + 1 / 2 < x * 2 ^ 23" using assms by simp
  then have "2 ^ 23 + 1 \<le> round_half_even (x * 2 ^ 23)"
    by (rule round_half_even_up)
  then have "(of_int (2 ^ 23 + 1) :: real) \<le> of_int (round_half_even (x * 2 ^ 23))"
    by (simp only: of_int_le_iff)
  then show ?thesis unfolding to_float32_one_to_two [OF x1 True] by simp
next
  case False
  then have x: "1 \<le> x" "2 \<le> x" by simp_all
  define m where "m = halvings 128 x"
  have m1: "1 \<le> m" and e: "float32_exponent x = int m"
    unfolding m_def using exponent_from_two [OF x(2)] by simp_all
  have mx: "2 ^ m \<le> x" unfolding m_def by (rule halvings_bound [OF x(1)])
  define u :: real where "u = 2 powi (int m - 23)"
  have u0: "0 < u" by (simp add: u_def)
  have um: "2 ^ 23 * u = 2 ^ m" unfolding u_def by (rule powi_shift)
  have tf: "to_float32 x = of_int (round_half_even (x / u)) * u"
    unfolding to_float32_def Let_def e u_def ..
  have "2 ^ 23 * u \<le> x" using mx um by simp
  then have "of_int (2 ^ 23) \<le> x / u" using u0 by (simp add: le_divide_eq)
  then have "2 ^ 23 \<le> round_half_even (x / u)"
    by (rule round_half_even_ge)
  then have "(2 ^ 23 :: real) \<le> of_int (round_half_even (x / u))"
    by (rule of_int_pow_le)
  then have "2 ^ 23 * u \<le> to_float32 x" unfolding tf using u0 by simp
  moreover have "(2::real) ^ 1 \<le> 2 ^ m" using m1 by (intro power_increasing) simp_all
  ultimately show ?thesis using um by simp
qed


section \<open>Compositing\<close>

lemma composite_entry:
  "composite background x c r k = (if x c r k = 0 then background c r k else x c r k)"
  by (simp add: composite_def tadd_def tmul_def teq0_def)

lemma no_zero_pixelD:
  assumes "no_zero_pixel x" "c < 3" "r < 28" "k < 28"
  shows "x c r k \<noteq> 0"
proof -
  have "(r, k) \<in> set canvas" using assms by (simp add: canvas_def)
  moreover have "c \<in> set channels" using assms by (simp add: channels_def)
  ultimately show ?thesis
    using assms(1) by (auto simp: no_zero_pixel_def list_all_iff)
qed

text \<open>
  C3. Compositing a background onto an image changes an entry only where the image is
  exactly zero (there the entry becomes the background's), every non-zero entry is kept,
  and an image with no zero entry on the canvas is returned as it is.
\<close>

theorem composite_replaces_only_zero_pixels:
  "(x c r k \<noteq> 0 \<longrightarrow> composite background x c r k = x c r k) \<and>
   (x c r k = 0 \<longrightarrow> composite background x c r k = background c r k) \<and>
   (no_zero_pixel x \<longrightarrow> c < 3 \<longrightarrow> r < 28 \<longrightarrow> k < 28 \<longrightarrow> composite background x c r k = x c r k)"
  using no_zero_pixelD [of x c r k] by (auto simp: composite_entry)

theorem composite_replaces_only_zero_pixels_witness:
  "no_zero_pixel (\<lambda>c r k. 1) \<and>
   composite (\<lambda>c r k. 1 / 2) (\<lambda>c r k. 1) 0 5 7 = 1 \<and>
   composite (\<lambda>c r k. 1 / 2) (\<lambda>c r k. if r = 5 then 0 else 1) 0 5 7 = 1 / 2 \<and>
   composite (\<lambda>c r k. 1 / 2) (\<lambda>c r k. if r = 5 then 0 else 1) 0 6 7 = 1"
proof -
  have nz: "no_zero_pixel (\<lambda>c r k. 1)"
    by (simp add: no_zero_pixel_def list_all_iff)
  show ?thesis
    using nz
      composite_replaces_only_zero_pixels [of "\<lambda>c r k. 1" 0 5 7 "\<lambda>c r k. 1 / 2"]
      composite_replaces_only_zero_pixels [of "\<lambda>c r k. if r = 5 then 0 else 1" 0 5 7 "\<lambda>c r k. 1 / 2"]
      composite_replaces_only_zero_pixels [of "\<lambda>c r k. if r = 5 then 0 else 1" 0 6 7 "\<lambda>c r k. 1 / 2"]
    by simp
qed


section \<open>Masks\<close>

lemma map_err_Inr:
  "(\<And>x. x \<in> set xs \<Longrightarrow> f x = Inr (h x)) \<Longrightarrow> map_err f xs = Inr (map h xs)"
  by (induction xs) auto

lemma index_select_in_range:
  assumes "\<And>i. i \<in> set idx \<Longrightarrow> i < length xs"
  shows "index_select xs idx = Inr (map ((!) xs) idx)"
  unfolding index_select_def
  by (rule map_err_Inr) (simp add: getitem_def assms)

lemma canvas_distinct: "distinct canvas"
  by (simp add: canvas_def distinct_product)

lemma set_canvas: "set canvas = {0..<28} \<times> {0..<28}"
  by (simp add: canvas_def)

lemma compute_mask_points:
  assumes d: "distinct pts" and r: "\<And>r k. (r, k) \<in> set pts \<Longrightarrow> r < side \<and> k < side"
    and s: "side \<le> 28"
  shows "\<exists>msk. compute_mask pts = Inr msk \<and> binary_mask_with msk (length pts) side"
proof -
  let ?m = "\<lambda>(c::nat) r k. if (r, k) \<in> set pts then 1 else (0::real)"
  have inr: "list_all (\<lambda>r. r < 28) (map fst pts) \<and> list_all (\<lambda>k. k < 28) (map snd pts)"
    using r s by (fastforce simp: list_all_iff)
  have cm: "compute_mask pts = Inr ?m"
    using inr unfolding compute_mask_def Let_def zip_map_fst_snd zeros_def by simp
  have sub: "set pts \<subseteq> set canvas"
    using r s by (fastforce simp: set_canvas)
  have cnt: "unmasked_count ?m c = length pts" for c
  proof -
    have "unmasked_count ?m c = length (filter (\<lambda>p. p \<in> set pts) canvas)"
      unfolding unmasked_count_def
      by (rule arg_cong [where f = length], rule filter_cong) auto
    also have "\<dots> = card ({p. p \<in> set pts} \<inter> set canvas)"
      by (rule distinct_length_filter [OF canvas_distinct])
    also have "{p. p \<in> set pts} \<inter> set canvas = set pts"
      using sub by auto
    also have "card (set pts) = length pts"
      using d by (rule distinct_card)
    finally show ?thesis .
  qed
  have "binary_mask_with ?m (length pts) side"
    unfolding binary_mask_with_def using cnt r by auto
  with cm show ?thesis by blast
qed

lemma grid_points: "distinct (List.product [0..<n] [0..<n]) \<and> length (List.product [0..<n] [0..<n]) = n * n"
  by (simp add: distinct_product)

lemma permD:
  assumes "mset p = mset [0..<n]"
  shows "distinct p" "set p = {0..<n}" "length p = n"
proof -
  show "distinct p" using assms by (metis distinct_upt mset_eq_imp_distinct_iff)
  show "set p = {0..<n}" using assms by (metis mset_eq_setD set_upt)
  show "length p = n" using assms by (metis mset_eq_length length_upt diff_zero)
qed

lemma random_points:
  assumes p: "mset p = mset [0..<length all]" and dall: "distinct all" and m: "m \<le> length all"
  shows "\<exists>pts. index_select all (take m p) = Inr pts \<and> distinct pts \<and> length pts = m \<and> set pts \<subseteq> set all"
proof -
  note pd = permD [OF p]
  have rng: "i < length all" if "i \<in> set (take m p)" for i
    using that pd(2) by (auto dest: in_set_takeD)
  have sel: "index_select all (take m p) = Inr (map ((!) all) (take m p))"
    by (rule index_select_in_range) (rule rng)
  have "inj_on ((!) all) (set (take m p))"
    using rng dall by (auto simp: inj_on_def nth_eq_iff_index_eq)
  then have "distinct (map ((!) all) (take m p))"
    using pd(1) by (simp add: distinct_map)
  moreover have "length (map ((!) all) (take m p)) = m"
    using pd(3) m by simp
  moreover have "set (map ((!) all) (take m p)) \<subseteq> set all"
    using rng by auto
  ultimately show ?thesis using sel by blast
qed

lemma fixed_rng_contract: "rng_contract fixed_rng"
  by (simp add: rng_contract_def fixed_rng_def)

lemma fixed_grid_mask:
  assumes "n \<le> 28"
  shows "\<exists>msk. compute_mask (List.product [0..<n] [0..<n]) = Inr msk \<and> binary_mask_with msk (n * n) n"
  using compute_mask_points [of "List.product [0..<n] [0..<n]" n] assms
  by (simp add: distinct_product)

lemma random_grid_mask:
  assumes p: "mset p = mset [0..<length (List.product [0..<n] [0..<n])]"
    and n: "n \<le> 28" "49 \<le> n * n"
  shows "\<exists>msk. (case index_select (List.product [0..<n] [0..<n]) (take 49 p) of
                   Inl e \<Rightarrow> Inl e | Inr unmask_points \<Rightarrow> compute_mask unmask_points) = Inr msk \<and>
               binary_mask_with msk 49 n"
proof -
  obtain pts where pts: "index_select (List.product [0..<n] [0..<n]) (take 49 p) = Inr pts"
      "distinct pts" "length pts = 49" "set pts \<subseteq> set (List.product [0..<n] [0..<n])"
    using random_points [OF p, of 49] n by (auto simp: distinct_product)
  have "\<exists>msk. compute_mask pts = Inr msk \<and> binary_mask_with msk (length pts) n"
    using pts(2,4) n(1) by (intro compute_mask_points) auto
  then show ?thesis using pts(1,3) by simp
qed

lemma produces_maskI:
  assumes "difficulty_mask R d g = (Some (Inr msk), g')" "binary_mask_with msk n side"
  shows "produces_mask R d colour g n side"
  unfolding produces_mask_def create_background_def Let_def
  using assms by (intro exI [of _ msk] exI [of _ g']) simp

lemma fixed_level_mask:
  assumes dm: "difficulty_mask R d g = (Some (compute_mask (List.product [0..<n] [0..<n])), g)"
    and n: "n \<le> 28"
  shows "produces_mask R d colour g (n * n) n"
proof -
  obtain msk where "compute_mask (List.product [0..<n] [0..<n]) = Inr msk"
      "binary_mask_with msk (n * n) n"
    using fixed_grid_mask [OF n] by blast
  then show ?thesis using dm by (intro produces_maskI [of R d g msk g]) simp_all
qed

lemma random_level_mask:
  assumes c: "rng_contract R"
    and dm: "difficulty_mask R d g =
      (Some (case index_select (List.product [0..<n] [0..<n])
                    (take 49 (fst (randperm R (length (List.product [0..<n] [0..<n])) g))) of
               Inl e \<Rightarrow> Inl e | Inr unmask_points \<Rightarrow> compute_mask unmask_points),
       snd (randperm R (length (List.product [0..<n] [0..<n])) g))"
    and n: "n \<le> 28" "49 \<le> n * n"
  shows "produces_mask R d colour g 49 n"
proof -
  let ?p = "fst (randperm R (length (List.product [0..<n] [0..<n])) g)"
  have "mset ?p = mset [0..<length (List.product [0..<n] [0..<n])]"
    using c by (simp add: rng_contract_def)
  from random_grid_mask [OF this n] obtain msk where
    "(case index_select (List.product [0..<n] [0..<n]) (take 49 ?p) of
        Inl e \<Rightarrow> Inl e | Inr unmask_points \<Rightarrow> compute_mask unmask_points) = Inr msk"
    "binary_mask_with msk 49 n" by blast
  then show ?thesis using dm by (intro produces_maskI [of R d g msk]) simp_all
qed

lemma difficulty_levels:
  assumes "rng_contract R"
  shows "difficulty_mask R MAGNITUDE_EASY g = (None, g) \<and>
         create_background R MAGNITUDE_EASY colour g = (Inr (rgb_to_mnist_background colour), g) \<and>
         produces_mask R MAGNITUDE_MEDIUM colour g 16 4 \<and>
         produces_mask R MAGNITUDE_HARD colour g 4 2 \<and>
         produces_mask R VARIANCE_EASY colour g 49 7 \<and>
         produces_mask R VARIANCE_MEDIUM colour g 49 14 \<and>
         produces_mask R VARIANCE_HARD colour g 49 28"
proof -
  have easy: "difficulty_mask R MAGNITUDE_EASY g = (None, g)"
    by (simp add: difficulty_mask_def)
  then have bg: "create_background R MAGNITUDE_EASY colour g = (Inr (rgb_to_mnist_background colour), g)"
    by (simp add: create_background_def)
  have m: "produces_mask R MAGNITUDE_MEDIUM colour g (4 * 4) 4"
    by (rule fixed_level_mask) (simp_all add: difficulty_mask_def)
  have h: "produces_mask R MAGNITUDE_HARD colour g (2 * 2) 2"
    by (rule fixed_level_mask) (simp_all add: difficulty_mask_def)
  have ve: "produces_mask R VARIANCE_EASY colour g (7 * 7) 7"
    by (rule fixed_level_mask) (simp_all add: difficulty_mask_def)
  have vm: "produces_mask R VARIANCE_MEDIUM colour g 49 14"
    by (rule random_level_mask [OF assms]) (simp_all add: difficulty_mask_def Let_def split_beta)
  have vh: "produces_mask R VARIANCE_HARD colour g 49 28"
    by (rule random_level_mask [OF assms]) (simp_all add: difficulty_mask_def Let_def split_beta)
  from easy bg m h ve vm vh show ?thesis by simp
qed

lemma create_background_succeeds:
  assumes "rng_contract R"
  shows "\<exists>background g'. create_background R d colour g = (Inr background, g')"
  using difficulty_levels [OF assms, of g colour]
  by (cases d) (auto simp: produces_mask_def)

text \<open>
  C4. At every difficulty level the mask is binary-valued and has the stated number of
  unmasked entries in each channel: 16 in the 4 \<times> 4 corner (MAGNITUDE_MEDIUM), 4 in the
  2 \<times> 2 corner (MAGNITUDE_HARD), 49 in the 7 \<times> 7 corner (VARIANCE_EASY), 49 distinct
  points of the 14 \<times> 14 grid (VARIANCE_MEDIUM) and of the 28 \<times> 28 grid (VARIANCE_HARD);
  MAGNITUDE_EASY makes no mask and returns the background on the full canvas.
\<close>

theorem difficulty_mask_point_counts:
  assumes "rng_contract R"
  shows "difficulty_mask R MAGNITUDE_EASY g = (None, g) \<and>
         create_background R MAGNITUDE_EASY colour g = (Inr (rgb_to_mnist_background colour), g) \<and>
         produces_mask R MAGNITUDE_MEDIUM colour g 16 4 \<and>
         produces_mask R MAGNITUDE_HARD colour g 4 2 \<and>
         produces_mask R VARIANCE_EASY colour g 49 7 \<and>
         produces_mask R VARIANCE_MEDIUM colour g 49 14 \<and>
         produces_mask R VARIANCE_HARD colour g 49 28"
  by (rule difficulty_levels [OF assms])

theorem difficulty_mask_point_counts_witness:
  "rng_contract fixed_rng \<and>
   create_background fixed_rng MAGNITUDE_EASY [1, 0, 0] () = (Inr (rgb_to_mnist_background [1, 0, 0]), ()) \<and>
   produces_mask fixed_rng MAGNITUDE_MEDIUM [1, 0, 0] () 16 4 \<and>
   produces_mask fixed_rng MAGNITUDE_HARD [1, 0, 0] () 4 2 \<and>
   produces_mask fixed_rng VARIANCE_EASY [1, 0, 0] () 49 7 \<and>
   produces_mask fixed_rng VARIANCE_MEDIUM [1, 0, 0] () 49 14 \<and>
   produces_mask fixed_rng VARIANCE_HARD [1, 0, 0] () 49 28"
  using difficulty_mask_point_counts [OF fixed_rng_contract, of "()" "[1, 0, 0]"] fixed_rng_contract
  by simp

section \<open>The partition loop\<close>

lemma partition_indices_snoc:
  "partition_indices (xs @ [x]) = dict_append x (length xs) (partition_indices xs)"
  by (simp add: partition_indices_def enumerate_append_eq)

lemma dict_append_keys:
  "map fst (dict_append l i d) = (if map_of d l = None then map fst d @ [l] else map fst d)"
  by (auto simp: dict_append_def Let_def split_beta intro: map_idI)

lemma concat_bump:
  assumes "distinct (map fst d)" "l \<in> fst ` set d"
  shows "mset (concat (map snd (map (\<lambda>(key, v). if key = l then (key, v @ [i]) else (key, v)) d)))
         = add_mset i (mset (concat (map snd d)))"
  using assms
proof (induction d)
  case Nil
  then show ?case by simp
next
  case (Cons a d)
  obtain k v where a: "a = (k, v)" by (cases a)
  show ?case
  proof (cases "k = l")
    case True
    then have "l \<notin> fst ` set d" using Cons.prems a by auto
    then have "map (\<lambda>(key, v). if key = l then (key, v @ [i]) else (key, v)) d = d"
      by (intro map_idI) (auto simp: image_iff)
    then show ?thesis using True a by simp
  next
    case False
    then show ?thesis using Cons a by auto
  qed
qed

lemma dict_append_concat:
  assumes "distinct (map fst d)"
  shows "mset (concat (map snd (dict_append l i d))) = add_mset i (mset (concat (map snd d)))"
proof (cases "map_of d l = None")
  case True
  have "distinct (map fst (d @ [(l, [])]))"
    using assms True by (auto simp: map_of_eq_None_iff)
  from concat_bump [OF this, of l i] show ?thesis
    using True by (simp add: dict_append_def)
next
  case False
  then have "l \<in> fst ` set d" by (simp add: map_of_eq_None_iff)
  from concat_bump [OF assms this, of i] show ?thesis
    using False by (simp add: dict_append_def)
qed

lemma dict_append_member:
  assumes "(key, v) \<in> set (dict_append l i d)"
  shows "(key \<noteq> l \<and> (key, v) \<in> set d) \<or>
         (key = l \<and> (v = [i] \<or> (\<exists>u. (l, u) \<in> set d \<and> v = u @ [i])))"
  using assms by (auto simp: dict_append_def Let_def split: if_splits)

lemma partition_indices_invariant:
  "distinct (map fst (partition_indices ls)) \<and>
   mset (concat (map snd (partition_indices ls))) = mset [0..<length ls] \<and>
   set (map fst (partition_indices ls)) = set ls \<and>
   (\<forall>(key, v) \<in> set (partition_indices ls). \<forall>i \<in> set v. i < length ls \<and> ls ! i = key)"
proof (induction ls rule: rev_induct)
  case Nil
  then show ?case by (simp add: partition_indices_def)
next
  case (snoc x xs)
  let ?d = "partition_indices xs"
  have d: "distinct (map fst ?d)" and m: "mset (concat (map snd ?d)) = mset [0..<length xs]"
    and k: "set (map fst ?d) = set xs"
    and g: "\<And>key v i. (key, v) \<in> set ?d \<Longrightarrow> i \<in> set v \<Longrightarrow> i < length xs \<and> xs ! i = key"
    using snoc.IH by auto
  have 1: "distinct (map fst (dict_append x (length xs) ?d))"
    using d by (auto simp: dict_append_keys map_of_eq_None_iff)
  have 2: "mset (concat (map snd (dict_append x (length xs) ?d))) = mset [0..<length (xs @ [x])]"
    using dict_append_concat [OF d] m by simp
  have 3: "set (map fst (dict_append x (length xs) ?d)) = set (xs @ [x])"
    using k by (auto simp: dict_append_keys map_of_eq_None_iff)
  have 4: "i < length (xs @ [x]) \<and> (xs @ [x]) ! i = key"
    if "(key, v) \<in> set (dict_append x (length xs) ?d)" "i \<in> set v" for key v i
    using dict_append_member [OF that(1)] that(2) g
    by (fastforce simp: nth_append)
  show ?case
    unfolding partition_indices_snoc using 1 2 3 4 by blast
qed

lemma partition_indices_exact: "exact_partition (partition_indices ls) (length ls)"
  using partition_indices_invariant [of ls] by (simp add: exact_partition_def)


section \<open>Group inference\<close>

lemma optimizer_step_frame:
  "p \<notin> set params \<Longrightarrow> data_of (optimizer_step N lr params s) p = data_of s p"
  unfolding optimizer_step_def
  by (induction params arbitrary: s) (auto split: option.splits prod.splits)

lemma train_step_scale: "data_of (train_step N logits lbls lr s) Scale = data_of s Scale"
  by (simp add: train_step_def Let_def optimizer_step_frame optimizer_params_def
      backward_def zero_grad_def)

lemma train_assignment_scale:
  "data_of (train_assignment N logits lbls lr num_steps s) Scale = data_of s Scale"
  unfolding train_assignment_def
  by (induction num_steps) (simp_all add: train_step_scale)

text \<open>
  C8. The optimizer holds \<^verbatim>\<open>env_w\<close> alone, so a step of the loop changes the data of no
  other leaf: \<^verbatim>\<open>scale\<close> starts at 1 and is 1 after any number of iterations, from any
  state and whatever the gradients and Adam's update are.
\<close>

theorem scale_keeps_initial_value:
  "data_of (initial_state N w) Scale = (\<lambda>i. 1) \<and>
   data_of (train_assignment N logits lbls lr num_steps (initial_state N w)) Scale = (\<lambda>i. 1) \<and>
   data_of (train_assignment N logits lbls lr num_steps s) Scale = data_of s Scale"
  by (simp add: train_assignment_scale initial_state_def)

theorem scale_keeps_initial_value_witness:
  "data_of (train_assignment sample_numerics [[2, 0], [0, 2], [1, 1]] [0, 1, 1] (1 / 10) 5
      (initial_state sample_numerics (\<lambda>i. if even i then 1 else - 1))) Scale 0 = 1"
  using scale_keeps_initial_value
    [of sample_numerics "\<lambda>i. if even i then 1 else - 1" "[[2, 0], [0, 2], [1, 1]]" "[0, 1, 1]" "1 / 10" 5]
  by simp

lemma harden_props:
  "length (harden N w n) = n"
  "i < n \<Longrightarrow> harden N w n ! i = (if sigmoid N (w i) > 1 / 2 then 1 else 0)"
  by (simp_all add: harden_def)

lemma refine_by_label_length:
  "refine_by_label gs ls = Inr fin \<Longrightarrow> length fin = length gs"
  by (auto simp: refine_by_label_def Let_def split: if_splits)

lemma refine_by_label_mask:
  assumes "length ls = length gs" "length ls \<noteq> 1"
  shows "refine_by_label gs ls = Inr (map (\<lambda>(g, l). if l = 1 then g + 2 else g) (zip gs ls))"
  using assms by (simp add: refine_by_label_def)

lemma infer_group_labels_Inr:
  assumes "infer_group_labels R N logits lbls num_steps lr g = Inr fin"
  shows "length lbls = length logits \<and> length fin = length logits \<and>
         cross_entropy_check logits lbls = Inr ()"
proof -
  from assms have ce: "cross_entropy_check logits lbls = Inr ()"
    by (auto simp: infer_group_labels_def split: sum.splits)
  then have len: "length lbls = length logits"
    by (auto simp: cross_entropy_check_def split: if_splits)
  have "refine_by_label (harden N (trained_env_w R N logits lbls num_steps lr g) (length logits)) lbls = Inr fin"
    using assms ce by (simp add: infer_group_labels_def)
  from refine_by_label_length [OF this] show ?thesis using len ce by (simp add: harden_props)
qed

text \<open>
  With any number of samples other than one, the refinement is the boolean mask: a
  sample whose label is 1 has its raw group raised by 2, every other sample keeps it.
\<close>

lemma refinement_split_batch:
  assumes "cross_entropy_check logits lbls = Inr ()" "length logits \<noteq> 1" "i < length logits"
  shows "\<exists>final. infer_group_labels R N logits lbls num_steps lr g = Inr final \<and>
           infer_groups R N logits lbls num_steps lr g = Inr (partition_indices final) \<and>
           final ! i = harden N (trained_env_w R N logits lbls num_steps lr g) (length logits) ! i
                       + (if lbls ! i = 1 then 2 else 0) \<and>
           final ! i \<in> {0, 1, 2, 3}"
proof -
  let ?raw = "harden N (trained_env_w R N logits lbls num_steps lr g) (length logits)"
  let ?final = "map (\<lambda>(g, l). if l = 1 then g + 2 else g) (zip ?raw lbls)"
  have len: "length lbls = length logits"
    using assms(1) by (auto simp: cross_entropy_check_def split: if_splits)
  have r: "refine_by_label ?raw lbls = Inr ?final"
    using len assms(2) by (intro refine_by_label_mask) (simp_all add: harden_props)
  have il: "infer_group_labels R N logits lbls num_steps lr g = Inr ?final"
    using assms(1) r by (simp add: infer_group_labels_def)
  then have ig: "infer_groups R N logits lbls num_steps lr g = Inr (partition_indices ?final)"
    by (simp add: infer_groups_def)
  have "?final ! i = ?raw ! i + (if lbls ! i = 1 then 2 else 0)"
    using assms(3) len by (simp add: harden_props)
  moreover have "?raw ! i = 0 \<or> ?raw ! i = 1"
    using assms(3) by (simp add: harden_props)
  ultimately have "?final ! i = ?raw ! i + (if lbls ! i = 1 then 2 else 0) \<and> ?final ! i \<in> {0, 1, 2, 3}"
    by auto
  then show ?thesis using il ig by blast
qed

text \<open>
  C7. The claim holds of the source for every number of samples but one. With a single
  sample the boolean tensor \<^verbatim>\<open>self.labels==1\<close> is taken as an integer index: a sample
  whose label is not 1 has its group raised by 2 all the same (index 0), and a sample
  whose label is 1 makes \<^verbatim>\<open>group_labels[1]\<close> an IndexError.
\<close>

theorem single_sample_refinement:
  assumes "cross_entropy_check [row] [l] = Inr ()"
  shows "infer_group_labels R N [row] [l] num_steps lr g =
           (if l = 1 then Inl IndexError
            else Inr [harden N (trained_env_w R N [row] [l] num_steps lr g) 1 ! 0 + 2])"
  using assms
  by (simp add: infer_group_labels_def refine_by_label_def Let_def harden_def)

theorem single_sample_refinement_witness:
  "cross_entropy_check [[2, 0]] [0] = Inr () \<and>
   infer_group_labels fixed_rng sample_numerics [[2, 0]] [0] 0 (1 / 10) () = Inr [3] \<and>
   infer_groups fixed_rng sample_numerics [[2, 0]] [0] 0 (1 / 10) () = Inr [(3, [0])] \<and>
   cross_entropy_check [[2, 0]] [1] = Inr () \<and>
   infer_groups fixed_rng sample_numerics [[2, 0]] [1] 0 (1 / 10) () = Inl IndexError"
proof -
  have c0: "cross_entropy_check [[2, 0]] [0] = Inr ()"
    and c1: "cross_entropy_check [[2, 0]] [1] = Inr ()"
    by (simp_all add: cross_entropy_check_def num_columns_def)
  have raw: "harden sample_numerics (trained_env_w fixed_rng sample_numerics [[2, 0]] [l] 0 (1 / 10) ()) 1 ! 0 = 1"
    for l
    by (simp add: harden_def trained_env_w_def train_assignment_def initial_state_def
        fixed_rng_def sample_numerics_def)
  have l0: "infer_group_labels fixed_rng sample_numerics [[2, 0]] [0] 0 (1 / 10) () = Inr [3]"
    using single_sample_refinement [OF c0, of fixed_rng sample_numerics 0 "1 / 10" "()"] raw [of 0]
    by simp
  have l1: "infer_group_labels fixed_rng sample_numerics [[2, 0]] [1] 0 (1 / 10) () = Inl IndexError"
    using single_sample_refinement [OF c1, of fixed_rng sample_numerics 0 "1 / 10" "()"]
    by simp
  have p: "partition_indices [3 :: int] = [(3, [0])]"
    by (simp add: partition_indices_def dict_append_def)
  show ?thesis using c0 c1 l0 l1 p by (simp add: infer_groups_def)
qed

section \<open>The loops of the dataset builder\<close>

lemma fold_invariant:
  assumes "P s" "\<And>x s. x \<in> set xs \<Longrightarrow> P s \<Longrightarrow> P (f x s)"
  shows "P (fold f xs s)"
  using assms by (induction xs arbitrary: s) auto

lemma fold_err_invariant:
  assumes "fold_err f xs s = Inr s'" "P s"
    and "\<And>x s s'. x \<in> set xs \<Longrightarrow> P s \<Longrightarrow> f x s = Inr s' \<Longrightarrow> P s'"
  shows "P s'"
  using assms
proof (induction xs arbitrary: s)
  case Nil
  then show ?case by simp
next
  case (Cons x xs)
  from Cons.prems(1) obtain s1 where s1: "f x s = Inr s1" "fold_err f xs s1 = Inr s'"
    by (auto split: sum.splits)
  have "P s1" using Cons.prems(2,3) s1(1) by auto
  then show ?case using Cons.IH [OF s1(2)] Cons.prems(3) by auto
qed

lemma fold_err_total:
  assumes "P s"
    and "\<And>x s. x \<in> set xs \<Longrightarrow> P s \<Longrightarrow> \<exists>s'. f x s = Inr s' \<and> P s'"
  shows "\<exists>s'. fold_err f xs s = Inr s'"
  using assms
proof (induction xs arbitrary: s)
  case Nil
  then show ?case by simp
next
  case (Cons x xs)
  obtain s1 where s1: "f x s = Inr s1" "P s1" using Cons.prems by fastforce
  have "\<exists>s'. fold_err f xs s1 = Inr s'"
    using Cons.prems(2) by (intro Cons.IH [OF s1(2)]) auto
  then show ?case using s1(1) by simp
qed

text \<open>One pass of the inner loop's body.\<close>

lemma paint_sample_Inr:
  assumes "paint_sample R self bl (i, idx) d = Inr d'"
  shows "i < length bl \<and> spurious d' = (spurious d)[idx := bl ! i] \<and>
         labels d' = labels d \<and> partition_dict d' = partition_dict d \<and>
         length (X d') = length (X d)"
  using assms
  by (auto simp: paint_sample_def getitem_def Let_def split: if_splits sum.splits prod.splits)

lemma paint_sample_total:
  assumes c: "rng_contract R" and i: "i < length bl" and idx: "idx < length (spurious d)"
    and v: "0 \<le> bl ! i" "bl ! i < int (length (colors self))"
  shows "\<exists>d'. paint_sample R self bl (i, idx) d = Inr d'"
proof -
  have "\<exists>colour. py_getitem (colors self) ((spurious d)[idx := bl ! i] ! idx) = Inr colour"
    using idx v by (simp add: py_getitem_def)
  then obtain colour where col: "py_getitem (colors self) ((spurious d)[idx := bl ! i] ! idx) = Inr colour" ..
  obtain background g' where
    "create_background R (spurious_feature_difficulty self) colour (gen d) = (Inr background, g')"
    using create_background_succeeds [OF c] by blast
  then show ?thesis
    using i col by (simp add: paint_sample_def getitem_def Let_def)
qed

lemma paint_loop:
  assumes "fold_err (paint_sample R self bl) (enumerate m idxs) d = Inr d'"
    and "distinct idxs" "\<And>idx. idx \<in> set idxs \<Longrightarrow> idx < length (spurious d)"
  shows "length (spurious d') = length (spurious d) \<and> labels d' = labels d \<and>
         partition_dict d' = partition_dict d \<and> length (X d') = length (X d) \<and>
         (\<forall>idx. idx \<notin> set idxs \<longrightarrow> spurious d' ! idx = spurious d ! idx) \<and>
         (\<forall>j<length idxs. m + j < length bl \<and> spurious d' ! (idxs ! j) = bl ! (m + j))"
  using assms
proof (induction idxs arbitrary: m d)
  case Nil
  then show ?case by simp
next
  case (Cons idx idxs)
  from Cons.prems(1) obtain d1 where d1: "paint_sample R self bl (m, idx) d = Inr d1"
      "fold_err (paint_sample R self bl) (enumerate (Suc m) idxs) d1 = Inr d'"
    by (auto split: sum.splits)
  note s1 = paint_sample_Inr [OF d1(1)]
  have len1: "length (spurious d1) = length (spurious d)" using s1 by simp
  have ih: "length (spurious d') = length (spurious d1) \<and> labels d' = labels d1 \<and>
         partition_dict d' = partition_dict d1 \<and> length (X d') = length (X d1) \<and>
         (\<forall>i. i \<notin> set idxs \<longrightarrow> spurious d' ! i = spurious d1 ! i) \<and>
         (\<forall>j<length idxs. Suc m + j < length bl \<and> spurious d' ! (idxs ! j) = bl ! (Suc m + j))"
    using Cons.prems(2,3) len1 by (intro Cons.IH [OF d1(2)]) auto
  have here: "spurious d' ! idx = bl ! m"
    using ih s1 Cons.prems(2,3) by simp
  have frame: "spurious d' ! i = spurious d ! i" if "i \<notin> set (idx # idxs)" for i
    using ih s1 that by simp
  have at: "m + j < length bl \<and> spurious d' ! ((idx # idxs) ! j) = bl ! (m + j)"
    if "j < length (idx # idxs)" for j
    using that ih here s1 by (cases j) auto
  show ?case using ih s1 frame at by simp
qed

lemma paint_loop_total:
  assumes c: "rng_contract R"
    and "m + length idxs \<le> length bl" "\<And>idx. idx \<in> set idxs \<Longrightarrow> idx < length (spurious d)"
    and "\<And>v. v \<in> set bl \<Longrightarrow> 0 \<le> v \<and> v < int (length (colors self))"
  shows "\<exists>d'. fold_err (paint_sample R self bl) (enumerate m idxs) d = Inr d'"
  using assms(2-)
proof (induction idxs arbitrary: m d)
  case Nil
  then show ?case by simp
next
  case (Cons idx idxs)
  have m: "m < length bl" using Cons.prems(1) by simp
  then have "0 \<le> bl ! m \<and> bl ! m < int (length (colors self))"
    using Cons.prems(3) by simp
  then obtain d1 where d1: "paint_sample R self bl (m, idx) d = Inr d1"
    using paint_sample_total [OF c m, of idx d self] Cons.prems(2) by auto
  have "length (spurious d1) = length (spurious d)"
    using paint_sample_Inr [OF d1] by simp
  then have "\<exists>d'. fold_err (paint_sample R self bl) (enumerate (Suc m) idxs) d1 = Inr d'"
    using Cons.prems by (intro Cons.IH) auto
  then show ?case using d1 by simp
qed

lemma shuffle_is_permutation:
  assumes "mset p = mset [0..<length bl]"
  shows "index_select bl p = Inr (map ((!) bl) p) \<and> mset (map ((!) bl) p) = mset bl \<and>
         length (map ((!) bl) p) = length bl"
proof -
  note pd = permD [OF assms]
  have sel: "index_select bl p = Inr (map ((!) bl) p)"
    using pd(2) by (intro index_select_in_range) simp
  have "mset (map ((!) bl) p) = image_mset ((!) bl) (mset p)" by simp
  also have "\<dots> = mset (map ((!) bl) [0..<length bl])" using assms by simp
  also have "\<dots> = mset bl" by (simp add: map_nth)
  finally show ?thesis using sel pd(3) by simp
qed

lemma shuffle_and_paint_Inr:
  assumes c: "rng_contract R"
    and run: "shuffle_and_paint R self bl idxs d = Inr d'"
    and len: "length bl = length idxs"
    and idxs: "distinct idxs" "\<And>idx. idx \<in> set idxs \<Longrightarrow> idx < length (spurious d)"
  shows "length (spurious d') = length (spurious d) \<and> labels d' = labels d \<and>
         partition_dict d' = partition_dict d \<and> length (X d') = length (X d) \<and>
         (\<forall>idx. idx \<notin> set idxs \<longrightarrow> spurious d' ! idx = spurious d ! idx) \<and>
         mset (map ((!) (spurious d')) idxs) = mset bl"
proof -
  let ?p = "fst (randperm R (length bl) (gen d))"
  let ?g = "snd (randperm R (length bl) (gen d))"
  let ?sh = "map ((!) bl) ?p"
  have p: "mset ?p = mset [0..<length bl]" using c by (simp add: rng_contract_def)
  note sh = shuffle_is_permutation [OF p]
  have loop: "fold_err (paint_sample R self ?sh) (enumerate 0 idxs) (d\<lparr>gen := ?g\<rparr>) = Inr d'"
    using run sh by (simp add: shuffle_and_paint_def split_beta)
  have pl: "length (spurious d') = length (spurious d) \<and> labels d' = labels d \<and>
         partition_dict d' = partition_dict d \<and> length (X d') = length (X d) \<and>
         (\<forall>idx. idx \<notin> set idxs \<longrightarrow> spurious d' ! idx = spurious d ! idx) \<and>
         (\<forall>j<length idxs. 0 + j < length ?sh \<and> spurious d' ! (idxs ! j) = ?sh ! (0 + j))"
    using paint_loop [OF loop idxs(1)] idxs(2) by simp
  have "map ((!) (spurious d')) idxs = ?sh"
    using pl sh len by (intro nth_equalityI) auto
  then show ?thesis using pl sh by simp
qed

lemma shuffle_and_paint_total:
  assumes c: "rng_contract R"
    and len: "length bl = length idxs"
    and idxs: "\<And>idx. idx \<in> set idxs \<Longrightarrow> idx < length (spurious d)"
    and v: "\<And>v. v \<in> set bl \<Longrightarrow> 0 \<le> v \<and> v < int (length (colors self))"
  shows "\<exists>d'. shuffle_and_paint R self bl idxs d = Inr d'"
proof -
  let ?p = "fst (randperm R (length bl) (gen d))"
  let ?g = "snd (randperm R (length bl) (gen d))"
  let ?sh = "map ((!) bl) ?p"
  have p: "mset ?p = mset [0..<length bl]" using c by (simp add: rng_contract_def)
  note sh = shuffle_is_permutation [OF p]
  have "set ?sh = set bl" using sh by (metis mset_eq_setD)
  then have "\<exists>d'. fold_err (paint_sample R self ?sh) (enumerate 0 idxs) (d\<lparr>gen := ?g\<rparr>) = Inr d'"
    using sh len idxs v by (intro paint_loop_total [OF c]) auto
  then show ?thesis using sh by (simp add: shuffle_and_paint_def split_beta)
qed

text \<open>The outer loop over the groups of a partition whose index lists are disjoint.\<close>

lemma group_loop:
  assumes run: "fold_err f groups d = Inr d'"
    and dis: "distinct (concat (map snd groups))"
    and len: "length (spurious d) = n"
    and step: "\<And>g d d'. g \<in> set groups \<Longrightarrow> length (spurious d) = n \<Longrightarrow> f g d = Inr d' \<Longrightarrow>
        length (spurious d') = n \<and>
        (\<forall>idx. idx \<notin> set (snd g) \<longrightarrow> spurious d' ! idx = spurious d ! idx) \<and>
        Post g (map ((!) (spurious d')) (snd g))"
  shows "length (spurious d') = n \<and>
         (\<forall>idx. idx \<notin> set (concat (map snd groups)) \<longrightarrow> spurious d' ! idx = spurious d ! idx) \<and>
         (\<forall>g \<in> set groups. Post g (map ((!) (spurious d')) (snd g)))"
  using run dis len step
proof (induction groups arbitrary: d)
  case Nil
  then show ?case by simp
next
  case (Cons g groups)
  from Cons.prems(1) obtain d1 where d1: "f g d = Inr d1" "fold_err f groups d1 = Inr d'"
    by (auto split: sum.splits)
  have s1: "length (spurious d1) = n \<and>
        (\<forall>idx. idx \<notin> set (snd g) \<longrightarrow> spurious d1 ! idx = spurious d ! idx) \<and>
        Post g (map ((!) (spurious d1)) (snd g))"
    using Cons.prems(4) [OF _ Cons.prems(3) d1(1)] by simp
  have ih: "length (spurious d') = n \<and>
         (\<forall>idx. idx \<notin> set (concat (map snd groups)) \<longrightarrow> spurious d' ! idx = spurious d1 ! idx) \<and>
         (\<forall>g \<in> set groups. Post g (map ((!) (spurious d')) (snd g)))"
  proof (rule Cons.IH [OF d1(2)])
    show "distinct (concat (map snd groups))" using Cons.prems(2) by simp
    show "length (spurious d1) = n" using s1 by simp
    show "length (spurious e') = n \<and>
        (\<forall>idx. idx \<notin> set (snd h) \<longrightarrow> spurious e' ! idx = spurious e ! idx) \<and>
        Post h (map ((!) (spurious e')) (snd h))"
      if "h \<in> set groups" "length (spurious e) = n" "f h e = Inr e'" for h e e'
      using Cons.prems(4) [of h e e'] that by simp
  qed
  have eq: "map ((!) (spurious d')) (snd g) = map ((!) (spurious d1)) (snd g)"
    using ih Cons.prems(2) by (intro map_cong) auto
  have here: "Post g (map ((!) (spurious d')) (snd g))"
    unfolding eq using s1 by blast
  have frame: "spurious d' ! idx = spurious d ! idx"
    if "idx \<notin> set (concat (map snd (g # groups)))" for idx
    using that ih s1 by simp
  show ?case using ih here frame by simp
qed

lemma group_loop_total:
  assumes len: "length (spurious d) = n"
    and step: "\<And>g d. g \<in> set groups \<Longrightarrow> length (spurious d) = n \<Longrightarrow>
        \<exists>d'. f g d = Inr d' \<and> length (spurious d') = n"
  shows "\<exists>d'. fold_err f groups d = Inr d'"
  by (rule fold_err_total [where P = "\<lambda>d. length (spurious d) = n"]) (use assms in auto)

lemma group_loop_fields:
  assumes run: "fold_err f groups d = Inr d'"
    and step: "\<And>g d d'. g \<in> set groups \<Longrightarrow> f g d = Inr d' \<Longrightarrow>
        labels d' = labels d \<and> partition_dict d' = partition_dict d \<and> length (X d') = length (X d)"
  shows "labels d' = labels d \<and> partition_dict d' = partition_dict d \<and> length (X d') = length (X d)"
  by (rule fold_err_invariant [OF run, where P = "\<lambda>e. labels e = labels d \<and>
        partition_dict e = partition_dict d \<and> length (X e) = length (X d)"])
     (use step in auto)

lemma map_err_result:
  "map_err f xs = Inr ys \<Longrightarrow> length ys = length xs \<and> (\<forall>j<length xs. f (xs ! j) = Inr (ys ! j))"
proof (induction xs arbitrary: ys)
  case Nil
  then show ?case by simp
next
  case (Cons x xs)
  from Cons.prems obtain y zs where y: "f x = Inr y" "map_err f xs = Inr zs" "ys = y # zs"
    by (auto split: sum.splits)
  show ?case using Cons.IH [OF y(2)] y by (auto simp: nth_Cons split: nat.splits)
qed

lemma map_err_Inl:
  "map_err f xs = Inl e \<Longrightarrow> \<exists>x \<in> set xs. f x = Inl e"
  by (induction xs) (auto split: sum.splits)

lemma map_err_fails:
  "x \<in> set xs \<Longrightarrow> f x = Inl e \<Longrightarrow> \<exists>e'. map_err f xs = Inl e'"
  by (induction xs) (auto split: sum.splits)

lemma test_background_label_Inr:
  "0 < k \<Longrightarrow> test_background_label k n = Inr (map (\<lambda>i. int (i mod k)) [0..<n])"
  unfolding test_background_label_def by (rule map_err_Inr) simp

lemma train_background_label_values:
  assumes "train_background_label label draws others n = Inr bl"
  shows "length bl = n \<and> (\<forall>v \<in> set bl. v = label \<or> v \<in> set others)"
proof -
  let ?f = "\<lambda>i. if draws i then Inr label
                 else if length others = 0 then Inl ZeroDivisionError
                 else Inr (others ! (i mod length others))"
  note r = map_err_result [OF assms [unfolded train_background_label_def]]
  have len: "length bl = n" using r by simp
  have "bl ! j = label \<or> bl ! j \<in> set others" if "j < n" for j
  proof -
    have "j < length [0..<n]" using that by simp
    with r have "?f ([0..<n] ! j) = Inr (bl ! j)" by blast
    moreover have "[0..<n] ! j = j" using that by simp
    ultimately have "?f j = Inr (bl ! j)" by (simp only:)
    then show ?thesis
      using nth_mem [of "j mod length others" others]
      by (cases "draws j"; cases "others = []") auto
  qed
  then have "\<forall>v \<in> set bl. v = label \<or> v \<in> set others"
    unfolding all_set_conv_all_nth len by blast
  then show ?thesis using len by blast
qed

lemma train_background_label_aligned:
  assumes "\<And>i. i < n \<Longrightarrow> draws i"
  shows "train_background_label label draws others n = Inr (replicate n label)"
proof -
  have "train_background_label label draws others n = Inr (map (\<lambda>i. label) [0..<n])"
    unfolding train_background_label_def using assms by (intro map_err_Inr) simp
  then show ?thesis by (simp add: map_replicate_const)
qed

lemma train_background_label_no_others:
  assumes "i < n" "\<not> draws i"
  shows "train_background_label label draws [] n = Inl ZeroDivisionError"
proof -
  let ?f = "\<lambda>i. if draws i then Inr label
                 else if length ([]::int list) = 0 then Inl ZeroDivisionError
                 else Inr ([] ! (i mod length ([]::int list)))"
  have "\<exists>e. map_err ?f [0..<n] = Inl e"
    using assms by (intro map_err_fails [of i]) auto
  then obtain e where e: "map_err ?f [0..<n] = Inl e" ..
  from map_err_Inl [OF this] have "e = ZeroDivisionError" by (auto split: if_splits)
  then show ?thesis using e by (simp add: train_background_label_def)
qed

lemma train_background_label_total:
  assumes "others \<noteq> []"
  shows "\<exists>bl. train_background_label label draws others n = Inr bl"
proof -
  have "train_background_label label draws others n =
        Inr (map (\<lambda>i. if draws i then label else others ! (i mod length others)) [0..<n])"
    unfolding train_background_label_def using assms by (intro map_err_Inr) simp
  then show ?thesis by blast
qed

lemma other_labels_range:
  "set (filter (\<lambda>x. x \<noteq> label) (map int [0..<k])) \<subseteq> {v. 0 \<le> v \<and> v < int k}"
  by auto

lemma test_background_label_result:
  assumes "test_background_label k n = Inr bl"
  shows "bl = map (\<lambda>i. int (i mod k)) [0..<n]"
proof -
  let ?f = "\<lambda>i. if k = 0 then Inl ZeroDivisionError else Inr (int (i mod k))"
  note r = map_err_result [OF assms [unfolded test_background_label_def]]
  have "bl ! j = int (j mod k)" if "j < n" for j
  proof -
    have "j < length [0..<n]" using that by simp
    with r have "?f ([0..<n] ! j) = Inr (bl ! j)" by blast
    moreover have "[0..<n] ! j = j" using that by simp
    ultimately have "?f j = Inr (bl ! j)" by (simp only:)
    then show ?thesis by (cases "k = 0") auto
  qed
  then show ?thesis using r by (intro nth_equalityI) auto
qed

text \<open>The fields the loops do not touch.\<close>

lemma paint_loop_fields:
  assumes "fold_err (paint_sample R self bl) ps d = Inr d'"
  shows "labels d' = labels d \<and> partition_dict d' = partition_dict d \<and>
         length (X d') = length (X d) \<and> length (spurious d') = length (spurious d)"
proof (rule fold_err_invariant [OF assms, where P = "\<lambda>e. labels e = labels d \<and>
        partition_dict e = partition_dict d \<and> length (X e) = length (X d) \<and>
        length (spurious e) = length (spurious d)"])
  show "labels d = labels d \<and> partition_dict d = partition_dict d \<and>
        length (X d) = length (X d) \<and> length (spurious d) = length (spurious d)" by simp
next
  fix p e e'
  assume "labels e = labels d \<and> partition_dict e = partition_dict d \<and>
          length (X e) = length (X d) \<and> length (spurious e) = length (spurious d)"
    and "paint_sample R self bl p e = Inr e'"
  then show "labels e' = labels d \<and> partition_dict e' = partition_dict d \<and>
          length (X e') = length (X d) \<and> length (spurious e') = length (spurious d)"
    using paint_sample_Inr [of R self bl "fst p" "snd p" e e'] by simp
qed

lemma shuffle_and_paint_fields:
  assumes "shuffle_and_paint R self bl idxs d = Inr d'"
  shows "labels d' = labels d \<and> partition_dict d' = partition_dict d \<and>
         length (X d') = length (X d) \<and> length (spurious d') = length (spurious d)"
proof -
  from assms obtain sh g' where
    "fold_err (paint_sample R self sh) (enumerate 0 idxs) (d\<lparr>gen := g'\<rparr>) = Inr d'"
    by (auto simp: shuffle_and_paint_def split_beta split: sum.splits)
  from paint_loop_fields [OF this] show ?thesis by simp
qed

lemma test_group_fields:
  assumes "test_group R self grp d = Inr d'"
  shows "labels d' = labels d \<and> partition_dict d' = partition_dict d \<and>
         length (X d') = length (X d) \<and> length (spurious d') = length (spurious d)"
  using assms shuffle_and_paint_fields [of R self _ "snd grp" d d']
  by (auto simp: test_group_def split_beta split: sum.splits)

lemma train_group_float:
  "train_group R self (Float32 p) (label, idxs) d =
     (case train_background_label label (fst (bernoulli_sample R p (length idxs) (gen d)))
             (filter (\<lambda>x. x \<noteq> label) (map int [0..<length (classes self)])) (length idxs) of
        Inl e \<Rightarrow> Inl e
      | Inr bl \<Rightarrow>
          shuffle_and_paint R self bl idxs
            (d\<lparr>gen := snd (bernoulli_sample R p (length idxs) (gen d))\<rparr>))"
  by (simp add: train_group_def distribution_sample_def split_beta Let_def)

lemma train_group_int: "train_group R self (Int64 i) grp d = Inl RuntimeError"
  by (simp add: train_group_def distribution_sample_def split_beta)

lemma train_group_Inr_float:
  assumes "train_group R self probs grp d = Inr d'"
  shows "\<exists>p. probs = Float32 p"
  using assms by (cases probs) (simp_all add: train_group_int)

lemma train_group_fields:
  assumes "train_group R self probs grp d = Inr d'"
  shows "labels d' = labels d \<and> partition_dict d' = partition_dict d \<and>
         length (X d') = length (X d) \<and> length (spurious d') = length (spurious d)"
proof -
  obtain p where p: "probs = Float32 p" using train_group_Inr_float [OF assms] ..
  obtain label idxs where g: "grp = (label, idxs)" by (cases grp)
  from assms obtain bl g' where
    "shuffle_and_paint R self bl idxs (d\<lparr>gen := g'\<rparr>) = Inr d'"
    unfolding p g train_group_float by (auto split: sum.splits)
  from shuffle_and_paint_fields [OF this] show ?thesis by simp
qed

text \<open>One group of the evaluation loop.\<close>

lemma test_group_Inr:
  assumes c: "rng_contract R"
    and run: "test_group R self (label, idxs) d = Inr d'"
    and idxs: "distinct idxs" "\<And>idx. idx \<in> set idxs \<Longrightarrow> idx < length (spurious d)"
  shows "(\<forall>idx. idx \<notin> set idxs \<longrightarrow> spurious d' ! idx = spurious d ! idx) \<and>
         mset (map ((!) (spurious d')) idxs) =
           mset (map (\<lambda>i. int (i mod length (classes self))) [0..<length idxs])"
proof -
  from run obtain bl where bl: "test_background_label (length (classes self)) (length idxs) = Inr bl"
      "shuffle_and_paint R self bl idxs d = Inr d'"
    by (auto simp: test_group_def split: sum.splits)
  note eq = test_background_label_result [OF bl(1)]
  have "length bl = length idxs" using eq by simp
  from shuffle_and_paint_Inr [OF c bl(2) this idxs] show ?thesis using eq by simp
qed

lemma test_group_total:
  assumes c: "rng_contract R" and k: "0 < length (classes self)"
    and col: "length (classes self) \<le> length (colors self)"
    and idxs: "\<And>idx. idx \<in> set idxs \<Longrightarrow> idx < length (spurious d)"
  shows "\<exists>d'. test_group R self (label, idxs) d = Inr d'"
proof -
  let ?bl = "map (\<lambda>i. int (i mod length (classes self))) [0..<length idxs]"
  have bl: "test_background_label (length (classes self)) (length idxs) = Inr ?bl"
    by (rule test_background_label_Inr [OF k])
  have "0 \<le> v \<and> v < int (length (colors self))" if "v \<in> set ?bl" for v
  proof -
    from that obtain i where "v = int (i mod length (classes self))" by auto
    moreover have "i mod length (classes self) < length (classes self)" using k by simp
    ultimately show ?thesis using col by linarith
  qed
  then have "\<exists>d'. shuffle_and_paint R self ?bl idxs d = Inr d'"
    using idxs by (intro shuffle_and_paint_total [OF c]) auto
  then show ?thesis using bl by (simp add: test_group_def)
qed

text \<open>One group of the training loop.\<close>

lemma train_group_Inr:
  assumes c: "rng_contract R"
    and run: "train_group R self probs (label, idxs) d = Inr d'"
    and idxs: "distinct idxs" "\<And>idx. idx \<in> set idxs \<Longrightarrow> idx < length (spurious d)"
  shows "(\<forall>idx. idx \<notin> set idxs \<longrightarrow> spurious d' ! idx = spurious d ! idx) \<and>
         (\<forall>v \<in> set (map ((!) (spurious d')) idxs).
             v = label \<or> (0 \<le> v \<and> v < int (length (classes self)))) \<and>
         (probs = Float32 1 \<longrightarrow>
             map ((!) (spurious d')) idxs = replicate (length idxs) label)"
proof -
  obtain s where p: "probs = Float32 s" using train_group_Inr_float [OF run] ..
  let ?draws = "fst (bernoulli_sample R s (length idxs) (gen d))"
  let ?g = "snd (bernoulli_sample R s (length idxs) (gen d))"
  let ?others = "filter (\<lambda>x. x \<noteq> label) (map int [0..<length (classes self)])"
  from run obtain bl where bl: "train_background_label label ?draws ?others (length idxs) = Inr bl"
      "shuffle_and_paint R self bl idxs (d\<lparr>gen := ?g\<rparr>) = Inr d'"
    unfolding p train_group_float by (auto split: sum.splits)
  note vals = train_background_label_values [OF bl(1)]
  have sp: "(\<forall>idx. idx \<notin> set idxs \<longrightarrow> spurious d' ! idx = spurious d ! idx) \<and>
         mset (map ((!) (spurious d')) idxs) = mset bl"
    using shuffle_and_paint_Inr [OF c bl(2)] vals idxs by simp
  then have set_eq: "set (map ((!) (spurious d')) idxs) = set bl"
    by (metis mset_eq_setD)
  have range: "\<forall>v \<in> set (map ((!) (spurious d')) idxs).
      v = label \<or> (0 \<le> v \<and> v < int (length (classes self)))"
    unfolding set_eq using vals by auto
  have aligned: "map ((!) (spurious d')) idxs = replicate (length idxs) label" if "s = 1"
  proof -
    have "?draws i" if "i < length idxs" for i
      using c that \<open>s = 1\<close> by (simp add: rng_contract_def)
    then have "train_background_label label ?draws ?others (length idxs) = Inr (replicate (length idxs) label)"
      by (intro train_background_label_aligned) simp
    then have "bl = replicate (length idxs) label" using bl(1) by simp
    then have "mset (map ((!) (spurious d')) idxs) = mset (replicate (length idxs) label)"
      using sp by simp
    then have "length (map ((!) (spurious d')) idxs) = length (replicate (length idxs) label)"
      and "set (map ((!) (spurious d')) idxs) = set (replicate (length idxs) label)"
      by (rule mset_eq_length, rule mset_eq_setD)
    then show ?thesis
      by (intro replicate_eqI) (simp, auto)
  qed
  show ?thesis using sp range aligned p by simp
qed

lemma train_group_total:
  assumes c: "rng_contract R" and s: "probs = Float32 1"
    and l: "0 \<le> label" "label < int (length (colors self))"
    and idxs: "\<And>idx. idx \<in> set idxs \<Longrightarrow> idx < length (spurious d)"
  shows "\<exists>d'. train_group R self probs (label, idxs) d = Inr d'"
proof -
  let ?draws = "fst (bernoulli_sample R 1 (length idxs) (gen d))"
  let ?g = "snd (bernoulli_sample R 1 (length idxs) (gen d))"
  let ?others = "filter (\<lambda>x. x \<noteq> label) (map int [0..<length (classes self)])"
  have "?draws i" if "i < length idxs" for i
    using c that by (simp add: rng_contract_def)
  then have bl: "train_background_label label ?draws ?others (length idxs) = Inr (replicate (length idxs) label)"
    by (intro train_background_label_aligned) simp
  have "\<exists>d'. shuffle_and_paint R self (replicate (length idxs) label) idxs (d\<lparr>gen := ?g\<rparr>) = Inr d'"
    using idxs l by (intro shuffle_and_paint_total [OF c]) auto
  then show ?thesis using bl unfolding s train_group_float by simp
qed

lemma train_group_single_class:
  assumes k: "length (classes self) = 1"
    and i: "i < length idxs" "\<not> fst (bernoulli_sample R p (length idxs) (gen d)) i"
  shows "train_group R self (Float32 p) (0, idxs) d = Inl ZeroDivisionError"
proof -
  have "filter (\<lambda>x. x \<noteq> 0) (map int [0..<length (classes self)]) = []"
    using k by simp
  moreover have "train_background_label 0
      (fst (bernoulli_sample R p (length idxs) (gen d))) [] (length idxs) = Inl ZeroDivisionError"
    using i by (rule train_background_label_no_others)
  ultimately show ?thesis
    unfolding train_group_float by simp
qed

lemma relabel_sample_invariant:
  assumes i: "i < n"
    and inv: "length ls = n" "\<And>j. j \<in> set kept \<Longrightarrow> j < n \<and> 0 \<le> ls ! j \<and> ls ! j < int (length cls)"
    and res: "relabel_sample cls (i, label) (ls, kept) = (ls', kept')"
  shows "length ls' = n \<and> (\<forall>j \<in> set kept'. j < n \<and> 0 \<le> ls' ! j \<and> ls' ! j < int (length cls))"
proof -
  let ?P = "\<lambda>st. length (fst st) = n \<and>
      (\<forall>j \<in> set (snd st). j < n \<and> 0 \<le> fst st ! j \<and> fst st ! j < int (length cls))"
  let ?f = "\<lambda>(class_idx, latent_class) (ls, kept).
             if label \<in> set latent_class then (ls[i := int class_idx], kept @ [i]) else (ls, kept)"
  have "?P (fold ?f (enumerate 0 cls) (ls, kept))"
  proof (rule fold_invariant [where P = ?P])
    show "?P (ls, kept)" using inv by simp
  next
    fix x st
    assume x: "x \<in> set (enumerate 0 cls)" and st: "?P st"
    obtain c lc where xc: "x = (c, lc)" by (cases x)
    obtain l k where stk: "st = (l, k)" by (cases st)
    have c: "c < length cls" using x xc by (auto simp: in_set_enumerate_eq)
    show "?P (?f x st)"
      using st c i unfolding xc stk
      by (auto simp: nth_list_update)
  qed
  then show ?thesis using res by (simp add: relabel_sample_def)
qed

lemma get_new_labels_invariant:
  assumes "get_new_labels cls raw = (ls, kept)"
  shows "length ls = length raw \<and>
         (\<forall>j \<in> set kept. j < length raw \<and> 0 \<le> ls ! j \<and> ls ! j < int (length cls))"
proof -
  let ?n = "length raw"
  let ?P = "\<lambda>st. length (fst st) = ?n \<and>
      (\<forall>j \<in> set (snd st). j < ?n \<and> 0 \<le> fst st ! j \<and> fst st ! j < int (length cls))"
  have "?P (fold (relabel_sample cls) (enumerate 0 raw) (raw, []))"
  proof (rule fold_invariant [where P = ?P])
    show "?P (raw, [])" by simp
  next
    fix x st
    assume x: "x \<in> set (enumerate 0 raw)" and st: "?P st"
    obtain i label where xi: "x = (i, label)" by (cases x)
    obtain l k where stk: "st = (l, k)" by (cases st)
    obtain l' k' where r: "relabel_sample cls (i, label) (l, k) = (l', k')"
      by (cases "relabel_sample cls (i, label) (l, k)")
    have i: "i < ?n" using x xi by (auto simp: in_set_enumerate_eq)
    from relabel_sample_invariant [OF i _ _ r] st stk
    show "?P (relabel_sample cls x st)"
      unfolding xi stk r by simp
  qed
  then show ?thesis using assms by (simp add: get_new_labels_def)
qed


lemma kept_data_fields:
  "length (X (kept_data self mnist g)) = length (labels (kept_data self mnist g)) \<and>
   spurious (kept_data self mnist g) = replicate (length (labels (kept_data self mnist g))) (- 1) \<and>
   partition_dict (kept_data self mnist g) = partition_indices (labels (kept_data self mnist g)) \<and>
   gen (kept_data self mnist g) = g"
  by (simp add: kept_data_def Let_def split_beta)

lemma kept_data_labels:
  assumes "l \<in> set (labels (kept_data self mnist g))"
  shows "0 \<le> l \<and> l < int (length (classes self))"
proof -
  obtain ls kept where gl: "get_new_labels (classes self) (map snd mnist) = (ls, kept)"
    by (cases "get_new_labels (classes self) (map snd mnist)")
  from assms obtain j where "j \<in> set kept" "l = ls ! j"
    by (auto simp: kept_data_def Let_def gl)
  then show ?thesis using get_new_labels_invariant [OF gl] by simp
qed

text \<open>The groups of the partition that the two loops run over.\<close>

lemma partition_indices_group:
  assumes "(label, idxs) \<in> set (partition_indices ls)"
  shows "label \<in> set ls" and "\<And>idx. idx \<in> set idxs \<Longrightarrow> idx < length ls \<and> ls ! idx = label"
proof -
  have k: "set (map fst (partition_indices ls)) = set ls"
    using partition_indices_invariant [of ls] by (elim conjE)
  have "label \<in> set (map fst (partition_indices ls))"
    using assms by (simp add: image_iff) (rule bexI [of _ "(label, idxs)"], simp_all)
  then show "label \<in> set ls" unfolding k .
  have g: "\<forall>(key, v) \<in> set (partition_indices ls). \<forall>i \<in> set v. i < length ls \<and> ls ! i = key"
    using partition_indices_invariant [of ls] by (elim conjE)
  show "idx < length ls \<and> ls ! idx = label" if "idx \<in> set idxs" for idx
    using bspec [OF g assms] that by simp
qed

lemma partition_indices_concat:
  "mset (concat (map snd (partition_indices ls))) = mset [0..<length ls]"
  using partition_indices_invariant [of ls] by (elim conjE)

lemma kept_partition:
  shows "exact_partition (partition_dict (kept_data self mnist g)) (length (labels (kept_data self mnist g)))"
    and "distinct (concat (map snd (partition_dict (kept_data self mnist g))))"
    and "set (concat (map snd (partition_dict (kept_data self mnist g)))) =
           {0..<length (labels (kept_data self mnist g))}"
    and "(label, idxs) \<in> set (partition_dict (kept_data self mnist g)) \<Longrightarrow>
           distinct idxs \<and> 0 \<le> label \<and> label < int (length (classes self)) \<and>
           (\<forall>idx \<in> set idxs. idx < length (labels (kept_data self mnist g)) \<and>
                labels (kept_data self mnist g) ! idx = label)"
proof -
  let ?d = "kept_data self mnist g"
  let ?ls = "labels ?d"
  have pd: "partition_dict ?d = partition_indices ?ls" using kept_data_fields [of self mnist g] by (elim conjE)
  show "exact_partition (partition_dict ?d) (length ?ls)"
    unfolding pd by (rule partition_indices_exact)
  have m: "mset (concat (map snd (partition_dict ?d))) = mset [0..<length ?ls]"
    unfolding pd by (rule partition_indices_concat)
  show dc: "distinct (concat (map snd (partition_dict ?d)))"
    by (rule permD(1) [OF m])
  show "set (concat (map snd (partition_dict ?d))) = {0..<length ?ls}"
    by (rule permD(2) [OF m])
  assume mem: "(label, idxs) \<in> set (partition_dict ?d)"
  then have "idxs \<in> set (map snd (partition_dict ?d))"
    by (simp add: image_iff) (rule bexI [of _ "(label, idxs)"], simp_all)
  then have di: "distinct idxs" using dc by (simp add: distinct_concat_iff)
  have mem': "(label, idxs) \<in> set (partition_indices ?ls)" using mem unfolding pd .
  note grp = partition_indices_group [OF mem']
  show "distinct idxs \<and> 0 \<le> label \<and> label < int (length (classes self)) \<and>
           (\<forall>idx \<in> set idxs. idx < length ?ls \<and> ?ls ! idx = label)"
    using di kept_data_labels [OF grp(1)] grp(2) by blast
qed

lemma load_data_test:
  assumes "validate_classes (classes self)" "\<not> train self"
  shows "load_data R self mnist g =
         fold_err (test_group R self) (partition_dict (kept_data self mnist g)) (kept_data self mnist g)"
  using assms by (simp add: load_data_def Let_def)

lemma load_data_train:
  assumes "validate_classes (classes self)" "train self"
    "0 \<le> number_value (spurious_correlation_strength self)"
    "torch_tensor (spurious_correlation_strength self) = Inr probs"
    "0 \<le> tensor_value probs" "tensor_value probs \<le> 1"
  shows "load_data R self mnist g =
         fold_err (train_group R self probs) (partition_dict (kept_data self mnist g))
           (kept_data self mnist g)"
  using assms by (simp add: load_data_def Let_def)

lemma load_data_loop:
  assumes "load_data R self mnist g = Inr d"
  shows "\<exists>body. loop_body_of R self body \<and>
           fold_err body (partition_dict (kept_data self mnist g)) (kept_data self mnist g) = Inr d"
proof (cases "train self")
  case False
  then show ?thesis using assms
    by (auto simp: load_data_def Let_def loop_body_of_def split: if_splits)
next
  case True
  then obtain probs where "torch_tensor (spurious_correlation_strength self) = Inr probs"
    "fold_err (train_group R self probs) (partition_dict (kept_data self mnist g))
       (kept_data self mnist g) = Inr d"
    using assms by (auto simp: load_data_def Let_def split: if_splits sum.splits)
  then show ?thesis using True by (auto simp: loop_body_of_def)
qed

lemma loop_body_fields:
  assumes "loop_body_of R self body" "body grp e = Inr e'"
  shows "labels e' = labels e \<and> partition_dict e' = partition_dict e \<and>
         length (X e') = length (X e) \<and> length (spurious e') = length (spurious e)"
proof (cases "train self")
  case True
  then obtain probs where "body = train_group R self probs"
    using assms(1) by (auto simp: loop_body_of_def)
  then show ?thesis using assms(2) train_group_fields [of R self probs grp e e'] by simp
next
  case False
  then have "body = test_group R self" using assms(1) by (simp add: loop_body_of_def)
  then show ?thesis using assms(2) test_group_fields [of R self grp e e'] by simp
qed

lemma load_data_fields:
  assumes "load_data R self mnist g = Inr d"
  shows "labels d = labels (kept_data self mnist g) \<and>
         partition_dict d = partition_dict (kept_data self mnist g) \<and>
         length (X d) = length (labels d) \<and> length (spurious d) = length (labels d)"
proof -
  let ?d0 = "kept_data self mnist g"
  let ?P = "\<lambda>e. labels e = labels ?d0 \<and> partition_dict e = partition_dict ?d0 \<and>
        length (X e) = length (X ?d0) \<and> length (spurious e) = length (spurious ?d0)"
  obtain body where b: "loop_body_of R self body"
    and run: "fold_err body (partition_dict ?d0) ?d0 = Inr d"
    using load_data_loop [OF assms] by blast
  have "?P d"
  proof (rule fold_err_invariant [OF run, where P = ?P])
    show "?P ?d0" by simp
  next
    fix grp e e'
    assume "?P e" and "body grp e = Inr e'"
    then show "?P e'" using loop_body_fields [OF b, of grp e e'] by simp
  qed
  moreover have "length (X ?d0) = length (labels ?d0)"
    and "length (spurious ?d0) = length (labels ?d0)"
    using kept_data_fields [of self mnist g] by simp_all
  ultimately show ?thesis by simp
qed

text \<open>The spurious vector after the loop over all groups, in both modes.\<close>

lemma loop_body_frame:
  assumes c: "rng_contract R" and b: "loop_body_of R self body"
    and r: "body (label, idxs) e = Inr e'"
    and idxs: "distinct idxs" "\<And>idx. idx \<in> set idxs \<Longrightarrow> idx < length (spurious e)"
  shows "\<forall>idx. idx \<notin> set idxs \<longrightarrow> spurious e' ! idx = spurious e ! idx"
proof (cases "train self")
  case True
  then obtain probs where "body = train_group R self probs"
    using b by (auto simp: loop_body_of_def)
  then show ?thesis using train_group_Inr [OF c _ idxs, of self probs label e'] r by simp
next
  case False
  then have "body = test_group R self" using b by (simp add: loop_body_of_def)
  then show ?thesis using test_group_Inr [OF c _ idxs, of self label e'] r by simp
qed

lemma load_data_groups:
  fixes R :: "'g torch_rng"
  assumes c: "rng_contract R" and run: "load_data R self mnist g = Inr d"
    and step: "\<And>body label idxs (e :: 'g spuco_data) e'. loop_body_of R self body \<Longrightarrow>
        (label, idxs) \<in> set (partition_dict (kept_data self mnist g)) \<Longrightarrow>
        length (spurious e) = length (labels (kept_data self mnist g)) \<Longrightarrow>
        body (label, idxs) e = Inr e' \<Longrightarrow>
        Post (label, idxs) (map ((!) (spurious e')) idxs)"
  shows "\<forall>grp \<in> set (partition_dict d). Post grp (map ((!) (spurious d)) (snd grp))"
proof -
  let ?d0 = "kept_data self mnist g"
  let ?n = "length (labels ?d0)"
  obtain body where b: "loop_body_of R self body"
    and loop: "fold_err body (partition_dict ?d0) ?d0 = Inr d"
    using load_data_loop [OF run] by blast
  have len0: "length (spurious ?d0) = ?n"
    using kept_data_fields [of self mnist g] by simp
  have "length (spurious d) = ?n \<and>
        (\<forall>idx. idx \<notin> set (concat (map snd (partition_dict ?d0))) \<longrightarrow>
            spurious d ! idx = spurious ?d0 ! idx) \<and>
        (\<forall>grp \<in> set (partition_dict ?d0). Post grp (map ((!) (spurious d)) (snd grp)))"
  proof (rule group_loop [OF loop kept_partition(2) len0])
    fix grp :: "int \<times> nat list" and e e' :: "'g spuco_data"
    assume grp: "grp \<in> set (partition_dict ?d0)" and len: "length (spurious e) = ?n"
      and r: "body grp e = Inr e'"
    obtain label idxs where g: "grp = (label, idxs)" by (cases grp)
    note kp = kept_partition(4) [OF grp [unfolded g]]
    have di: "distinct idxs" and rng: "\<And>idx. idx \<in> set idxs \<Longrightarrow> idx < length (spurious e)"
      using kp len by simp_all
    have len': "length (spurious e') = ?n"
      using loop_body_fields [OF b r] len by simp
    have frame: "\<forall>idx. idx \<notin> set idxs \<longrightarrow> spurious e' ! idx = spurious e ! idx"
      by (rule loop_body_frame [OF c b r [unfolded g] di rng])
    have "Post (label, idxs) (map ((!) (spurious e')) idxs)"
      using step [OF b grp [unfolded g] len r [unfolded g]] .
    then show "length (spurious e') = ?n \<and>
        (\<forall>idx. idx \<notin> set (snd grp) \<longrightarrow> spurious e' ! idx = spurious e ! idx) \<and>
        Post grp (map ((!) (spurious e')) (snd grp))"
      using len' frame g by simp
  qed
  then show ?thesis using load_data_fields [OF run] by simp
qed

text \<open>Every kept sample belongs to a group.\<close>

lemma load_data_covered:
  assumes run: "load_data R self mnist g = Inr d" and i: "i < length (spurious d)"
  shows "\<exists>label idxs. (label, idxs) \<in> set (partition_dict d) \<and> i \<in> set idxs \<and> labels d ! i = label"
proof -
  let ?d0 = "kept_data self mnist g"
  note f = load_data_fields [OF run]
  have "i \<in> set (concat (map snd (partition_dict ?d0)))"
    using i f unfolding kept_partition(3) by simp
  then obtain grp where grp: "grp \<in> set (partition_dict ?d0)" "i \<in> set (snd grp)" by auto
  obtain label idxs where g: "grp = (label, idxs)" by (cases grp)
  have "labels ?d0 ! i = label"
    using kept_partition(4) [OF grp(1) [unfolded g]] grp(2) g by simp
  then show ?thesis using grp g f by auto
qed

lemma load_data_test_total:
  fixes R :: "'g torch_rng"
  assumes c: "rng_contract R" and v: "validate_classes (classes self)" and t: "\<not> train self"
    and col: "length (classes self) \<le> length (colors self)"
  shows "\<exists>d. load_data R self mnist g = Inr d"
proof -
  let ?d0 = "kept_data self mnist g"
  let ?n = "length (labels ?d0)"
  have len0: "length (spurious ?d0) = ?n"
    using kept_data_fields [of self mnist g] by simp
  have "\<exists>d. fold_err (test_group R self) (partition_dict ?d0) ?d0 = Inr d"
  proof (rule group_loop_total [OF len0])
    fix grp :: "int \<times> nat list" and e :: "'g spuco_data"
    assume grp: "grp \<in> set (partition_dict ?d0)" and len: "length (spurious e) = ?n"
    obtain label idxs where g: "grp = (label, idxs)" by (cases grp)
    note kp = kept_partition(4) [OF grp [unfolded g]]
    have k: "0 < length (classes self)" using kp by linarith
    have rng: "\<And>idx. idx \<in> set idxs \<Longrightarrow> idx < length (spurious e)" using kp len by simp
    obtain e' where e': "test_group R self (label, idxs) e = Inr e'"
      using test_group_total [OF c k col rng] by blast
    then show "\<exists>e'. test_group R self grp e = Inr e' \<and> length (spurious e') = ?n"
      using test_group_fields [OF e'] len g by simp
  qed
  then show ?thesis unfolding load_data_test [OF v t] .
qed

lemma load_data_aligned_total:
  fixes R :: "'g torch_rng"
  assumes c: "rng_contract R" and v: "validate_classes (classes self)" and t: "train self"
    and s: "0 \<le> number_value (spurious_correlation_strength self)"
      "torch_tensor (spurious_correlation_strength self) = Inr (Float32 1)"
    and col: "length (classes self) \<le> length (colors self)"
  shows "\<exists>d. load_data R self mnist g = Inr d"
proof -
  let ?d0 = "kept_data self mnist g"
  let ?n = "length (labels ?d0)"
  have len0: "length (spurious ?d0) = ?n"
    using kept_data_fields [of self mnist g] by simp
  have "\<exists>d. fold_err (train_group R self (Float32 1)) (partition_dict ?d0) ?d0 = Inr d"
  proof (rule group_loop_total [OF len0])
    fix grp :: "int \<times> nat list" and e :: "'g spuco_data"
    assume grp: "grp \<in> set (partition_dict ?d0)" and len: "length (spurious e) = ?n"
    obtain label idxs where g: "grp = (label, idxs)" by (cases grp)
    note kp = kept_partition(4) [OF grp [unfolded g]]
    have l: "0 \<le> label" "label < int (length (colors self))" using kp col by linarith+
    have rng: "\<And>idx. idx \<in> set idxs \<Longrightarrow> idx < length (spurious e)" using kp len by simp
    obtain e' where e': "train_group R self (Float32 1) (label, idxs) e = Inr e'"
      using train_group_total [OF c refl l rng] by blast
    then show "\<exists>e'. train_group R self (Float32 1) grp e = Inr e' \<and> length (spurious e') = ?n"
      using train_group_fields [OF e'] len g by simp
  qed
  then show ?thesis using load_data_train [OF v t s, of R mnist g] by simp
qed

text \<open>Which exceptions the loops can raise.\<close>

lemma fold_err_Inl:
  "fold_err f xs s = Inl e \<Longrightarrow> \<exists>x \<in> set xs. \<exists>s'. f x s' = Inl e"
  by (induction xs arbitrary: s) (auto split: sum.splits)

lemma index_select_Inl: "index_select xs idx = Inl e \<Longrightarrow> e = IndexError"
  unfolding index_select_def
  by (drule map_err_Inl) (auto simp: getitem_def split: if_splits)

lemma compute_mask_Inl: "compute_mask pts = Inl e \<Longrightarrow> e = IndexError"
  by (simp add: compute_mask_def Let_def split: if_splits)

lemma create_background_Inl:
  assumes "create_background R d colour g = (Inl e, g')"
  shows "e = IndexError"
proof -
  from assms obtain r where r: "difficulty_mask R d g = (Some (Inl e), r)"
    by (auto simp: create_background_def Let_def split: prod.splits option.splits sum.splits)
  then show ?thesis
    by (cases d)
       (auto simp: difficulty_mask_def Let_def split_beta
             dest: compute_mask_Inl index_select_Inl split: sum.splits)
qed

lemma create_background_fst_Inl:
  "fst (create_background R d colour g) = Inl e \<Longrightarrow> e = IndexError"
  using create_background_Inl [of R d colour g e "snd (create_background R d colour g)"]
  by (cases "create_background R d colour g") simp

lemma paint_sample_Inl:
  assumes "paint_sample R self bl p d = Inl e"
  shows "e = IndexError"
  using assms
  by (auto simp: paint_sample_def getitem_def py_getitem_def Let_def split_beta
           dest: create_background_fst_Inl split: if_splits sum.splits prod.splits)

lemma shuffle_and_paint_Inl:
  assumes "shuffle_and_paint R self bl idxs d = Inl e"
  shows "e = IndexError"
proof -
  let ?p = "fst (randperm R (length bl) (gen d))"
  let ?g = "snd (randperm R (length bl) (gen d))"
  show ?thesis
  proof (cases "index_select bl ?p")
    case (Inl e')
    then show ?thesis using assms index_select_Inl [OF Inl]
      by (simp add: shuffle_and_paint_def split_beta)
  next
    case (Inr sh)
    then have "fold_err (paint_sample R self sh) (enumerate 0 idxs) (d\<lparr>gen := ?g\<rparr>) = Inl e"
      using assms by (simp add: shuffle_and_paint_def split_beta)
    from fold_err_Inl [OF this] show ?thesis using paint_sample_Inl by blast
  qed
qed

lemma train_background_label_Inl:
  assumes "train_background_label label draws others n = Inl e"
  shows "e = ZeroDivisionError"
  using map_err_Inl [OF assms [unfolded train_background_label_def]]
  by (auto split: if_splits)

lemma train_group_Inl:
  assumes "train_group R self probs grp d = Inl e"
  shows "e = ZeroDivisionError \<or> e = IndexError \<or> e = RuntimeError"
proof (cases probs)
  case (Int64 i)
  then show ?thesis using assms by (simp add: train_group_int)
next
  case (Float32 p)
  obtain label idxs where g: "grp = (label, idxs)" by (cases grp)
  let ?draws = "fst (bernoulli_sample R p (length idxs) (gen d))"
  let ?g = "snd (bernoulli_sample R p (length idxs) (gen d))"
  let ?others = "filter (\<lambda>x. x \<noteq> label) (map int [0..<length (classes self)])"
  show ?thesis
  proof (cases "train_background_label label ?draws ?others (length idxs)")
    case (Inl e')
    then show ?thesis using assms train_background_label_Inl [OF Inl]
      unfolding Float32 g train_group_float by simp
  next
    case (Inr bl)
    then have "shuffle_and_paint R self bl idxs (d\<lparr>gen := ?g\<rparr>) = Inl e"
      using assms unfolding Float32 g train_group_float by simp
    then show ?thesis using shuffle_and_paint_Inl by blast
  qed
qed

lemma strength_error_not_raised_later:
  "\<not> strength_error ZeroDivisionError" "\<not> strength_error IndexError"
  "\<not> strength_error RuntimeError"
  "\<not> strength_error (AssertionError classes_message)"
  by (simp_all add: strength_error_def classes_message_def strength_message_def)






section \<open>The images and the relabelling\<close>

text \<open>The images after the loops.\<close>

lemma paint_sample_image:
  assumes r: "paint_sample R self bl (i, idx) d = Inr d'" and idx: "idx < length (X d)"
  shows "(\<forall>j. j \<noteq> idx \<longrightarrow> X d' ! j = X d ! j) \<and>
         painted R self (spurious d' ! idx) (X d ! idx) (X d' ! idx)"
proof -
  let ?sp = "(spurious d)[idx := bl ! i]"
  from r obtain colour background g' where
    col: "py_getitem (colors self) (?sp ! idx) = Inr colour"
    and bg: "create_background R (spurious_feature_difficulty self) colour (gen d) = (Inr background, g')"
    and d': "d' = d\<lparr>spurious := ?sp, X := (X d)[idx := composite background (X d ! idx)], gen := g'\<rparr>"
    by (auto simp: paint_sample_def getitem_def Let_def split: if_splits sum.splits prod.splits)
  have "painted R self (?sp ! idx) (X d ! idx) (composite background (X d ! idx))"
    unfolding painted_def using col bg by blast
  then show ?thesis using d' idx by simp
qed

lemma paint_loop_images:
  assumes "fold_err (paint_sample R self bl) (enumerate m idxs) d = Inr d'"
    and "distinct idxs"
    and "\<And>idx. idx \<in> set idxs \<Longrightarrow> idx < length (spurious d) \<and> idx < length (X d)"
  shows "(\<forall>j. j \<notin> set idxs \<longrightarrow> X d' ! j = X d ! j) \<and>
         (\<forall>idx \<in> set idxs. painted R self (spurious d' ! idx) (X d ! idx) (X d' ! idx))"
  using assms
proof (induction idxs arbitrary: m d)
  case Nil
  then show ?case by simp
next
  case (Cons idx idxs)
  from Cons.prems(1) obtain d1 where d1: "paint_sample R self bl (m, idx) d = Inr d1"
      "fold_err (paint_sample R self bl) (enumerate (Suc m) idxs) d1 = Inr d'"
    by (auto split: sum.splits)
  note s1 = paint_sample_Inr [OF d1(1)]
  have i1: "(\<forall>j. j \<noteq> idx \<longrightarrow> X d1 ! j = X d ! j) \<and>
         painted R self (spurious d1 ! idx) (X d ! idx) (X d1 ! idx)"
    using paint_sample_image [OF d1(1)] Cons.prems(3) by simp
  have rng1: "\<And>j. j \<in> set idxs \<Longrightarrow> j < length (spurious d1) \<and> j < length (X d1)"
    using Cons.prems(3) s1 by simp
  have di: "distinct idxs" and ni: "idx \<notin> set idxs" using Cons.prems(2) by simp_all
  have ih: "(\<forall>j. j \<notin> set idxs \<longrightarrow> X d' ! j = X d1 ! j) \<and>
         (\<forall>j \<in> set idxs. painted R self (spurious d' ! j) (X d1 ! j) (X d' ! j))"
    by (rule Cons.IH [OF d1(2) di rng1])
  have sp: "spurious d' ! idx = spurious d1 ! idx"
    using paint_loop [OF d1(2) di] rng1 ni by simp
  have here: "painted R self (spurious d' ! idx) (X d ! idx) (X d' ! idx)"
    using i1 ih ni sp by simp
  have rest: "painted R self (spurious d' ! j) (X d ! j) (X d' ! j)" if "j \<in> set idxs" for j
  proof -
    have "j \<noteq> idx" using that ni by auto
    then have eq: "X d1 ! j = X d ! j" using i1 by blast
    have "painted R self (spurious d' ! j) (X d1 ! j) (X d' ! j)" using ih that by blast
    then show ?thesis unfolding eq .
  qed
  have frame: "X d' ! j = X d ! j" if "j \<notin> set (idx # idxs)" for j
    using that ih i1 by simp
  show ?case using here rest frame by simp
qed

lemma shuffle_and_paint_images:
  assumes "shuffle_and_paint R self bl idxs d = Inr d'"
    and "distinct idxs"
    and "\<And>idx. idx \<in> set idxs \<Longrightarrow> idx < length (spurious d) \<and> idx < length (X d)"
  shows "(\<forall>j. j \<notin> set idxs \<longrightarrow> X d' ! j = X d ! j) \<and>
         (\<forall>idx \<in> set idxs. painted R self (spurious d' ! idx) (X d ! idx) (X d' ! idx))"
proof -
  from assms(1) obtain sh g' where
    "fold_err (paint_sample R self sh) (enumerate 0 idxs) (d\<lparr>gen := g'\<rparr>) = Inr d'"
    by (auto simp: shuffle_and_paint_def split_beta split: sum.splits)
  from paint_loop_images [OF this assms(2)] assms(3) show ?thesis by simp
qed

lemma loop_body_images:
  assumes b: "loop_body_of R self body" and r: "body (label, idxs) e = Inr e'"
    and "distinct idxs"
    and "\<And>idx. idx \<in> set idxs \<Longrightarrow> idx < length (spurious e) \<and> idx < length (X e)"
  shows "(\<forall>j. j \<notin> set idxs \<longrightarrow> X e' ! j = X e ! j) \<and>
         (\<forall>idx \<in> set idxs. painted R self (spurious e' ! idx) (X e ! idx) (X e' ! idx))"
proof (cases "train self")
  case False
  then have "body = test_group R self" using b by (simp add: loop_body_of_def)
  then obtain bl where "shuffle_and_paint R self bl idxs e = Inr e'"
    using r by (auto simp: test_group_def split: sum.splits)
  from shuffle_and_paint_images [OF this assms(3)] assms(4) show ?thesis by simp
next
  case True
  then obtain probs where body: "body = train_group R self probs"
    using b by (auto simp: loop_body_of_def)
  then obtain p where p: "probs = Float32 p" using train_group_Inr_float r by blast
  from r obtain bl g' where "shuffle_and_paint R self bl idxs (e\<lparr>gen := g'\<rparr>) = Inr e'"
    unfolding body p train_group_float by (auto split: sum.splits)
  from shuffle_and_paint_images [OF this assms(3)] assms(4) show ?thesis by simp
qed

lemma group_loop_values:
  assumes run: "fold_err f groups d = Inr d'"
    and dis: "distinct (concat (map snd groups))"
    and inv: "Inv d"
    and step: "\<And>g e e'. g \<in> set groups \<Longrightarrow> Inv e \<Longrightarrow> f g e = Inr e' \<Longrightarrow>
        Inv e' \<and> (\<forall>j. j \<notin> set (snd g) \<longrightarrow> val e' j = val e j) \<and>
        (\<forall>idx \<in> set (snd g). Q (val e idx) (val e' idx))"
  shows "Inv d' \<and>
         (\<forall>j. j \<notin> set (concat (map snd groups)) \<longrightarrow> val d' j = val d j) \<and>
         (\<forall>g \<in> set groups. \<forall>idx \<in> set (snd g). Q (val d idx) (val d' idx))"
  using run dis inv step
proof (induction groups arbitrary: d)
  case Nil
  then show ?case by simp
next
  case (Cons g groups)
  from Cons.prems(1) obtain d1 where d1: "f g d = Inr d1" "fold_err f groups d1 = Inr d'"
    by (auto split: sum.splits)
  have s1: "Inv d1 \<and> (\<forall>j. j \<notin> set (snd g) \<longrightarrow> val d1 j = val d j) \<and>
        (\<forall>idx \<in> set (snd g). Q (val d idx) (val d1 idx))"
    using Cons.prems(4) [OF _ Cons.prems(3) d1(1)] by simp
  have ih: "Inv d' \<and>
         (\<forall>j. j \<notin> set (concat (map snd groups)) \<longrightarrow> val d' j = val d1 j) \<and>
         (\<forall>h \<in> set groups. \<forall>idx \<in> set (snd h). Q (val d1 idx) (val d' idx))"
  proof (rule Cons.IH [OF d1(2)])
    show "distinct (concat (map snd groups))" using Cons.prems(2) by simp
    show "Inv d1" using s1 by simp
    show "Inv e' \<and> (\<forall>j. j \<notin> set (snd h) \<longrightarrow> val e' j = val e j) \<and>
        (\<forall>idx \<in> set (snd h). Q (val e idx) (val e' idx))"
      if "h \<in> set groups" "Inv e" "f h e = Inr e'" for h e e'
      using Cons.prems(4) [of h e e'] that by simp
  qed
  have disj: "set (snd g) \<inter> set (concat (map snd groups)) = {}"
    using Cons.prems(2) by auto
  have here: "Q (val d idx) (val d' idx)" if "idx \<in> set (snd g)" for idx
  proof -
    have "idx \<notin> set (concat (map snd groups))" using that disj by blast
    then have "val d' idx = val d1 idx" using ih by blast
    moreover have "Q (val d idx) (val d1 idx)" using s1 that by blast
    ultimately show ?thesis by simp
  qed
  have later: "Q (val d idx) (val d' idx)" if "h \<in> set groups" "idx \<in> set (snd h)" for h idx
  proof -
    have "idx \<in> set (concat (map snd groups))" using that by auto
    then have "idx \<notin> set (snd g)" using disj by blast
    then have "val d1 idx = val d idx" using s1 by blast
    moreover have "Q (val d1 idx) (val d' idx)" using ih that by blast
    ultimately show ?thesis by simp
  qed
  have frame: "val d' j = val d j" if "j \<notin> set (concat (map snd (g # groups)))" for j
  proof -
    have "j \<notin> set (snd g)" "j \<notin> set (concat (map snd groups))" using that by simp_all
    then show ?thesis using ih s1 by simp
  qed
  show ?case using ih here later frame by simp
qed

lemma load_data_images:
  fixes R :: "'g torch_rng"
  assumes c: "rng_contract R" and run: "load_data R self mnist g = Inr d"
    and i: "i < length (labels d)"
  shows "painted R self (spurious d ! i) (X (kept_data self mnist g) ! i) (X d ! i)"
proof -
  let ?d0 = "kept_data self mnist g"
  let ?n = "length (labels ?d0)"
  let ?Inv = "\<lambda>e :: 'g spuco_data. length (spurious e) = ?n \<and> length (X e) = ?n"
  let ?val = "\<lambda>(e :: 'g spuco_data) j. (X e ! j, spurious e ! j)"
  let ?Q = "\<lambda>(old :: tensor \<times> int) (new :: tensor \<times> int). painted R self (snd new) (fst old) (fst new)"
  obtain body where b: "loop_body_of R self body"
    and loop: "fold_err body (partition_dict ?d0) ?d0 = Inr d"
    using load_data_loop [OF run] by blast
  have inv0: "?Inv ?d0" using kept_data_fields [of self mnist g] by simp
  have res: "?Inv d \<and>
         (\<forall>j. j \<notin> set (concat (map snd (partition_dict ?d0))) \<longrightarrow> ?val d j = ?val ?d0 j) \<and>
         (\<forall>grp \<in> set (partition_dict ?d0). \<forall>idx \<in> set (snd grp). ?Q (?val ?d0 idx) (?val d idx))"
  proof (rule group_loop_values [OF loop kept_partition(2), where Inv = ?Inv and val = ?val and Q = ?Q])
    show "?Inv ?d0" by (rule inv0)
  next
    fix grp :: "int \<times> nat list" and e e' :: "'g spuco_data"
    assume grp: "grp \<in> set (partition_dict ?d0)" and inv: "?Inv e" and r: "body grp e = Inr e'"
    obtain label idxs where g: "grp = (label, idxs)" by (cases grp)
    note kp = kept_partition(4) [OF grp [unfolded g]]
    have di: "distinct idxs"
      and rng: "\<And>idx. idx \<in> set idxs \<Longrightarrow> idx < length (spurious e) \<and> idx < length (X e)"
      and rng': "\<And>idx. idx \<in> set idxs \<Longrightarrow> idx < length (spurious e)"
      using kp inv by simp_all
    have inv': "?Inv e'" using loop_body_fields [OF b r] inv by simp
    have fs: "\<forall>idx. idx \<notin> set idxs \<longrightarrow> spurious e' ! idx = spurious e ! idx"
      by (rule loop_body_frame [OF c b r [unfolded g] di rng'])
    note im = loop_body_images [OF b r [unfolded g] di rng]
    show "?Inv e' \<and> (\<forall>j. j \<notin> set (snd grp) \<longrightarrow> ?val e' j = ?val e j) \<and>
        (\<forall>idx \<in> set (snd grp). ?Q (?val e idx) (?val e' idx))"
      using inv' fs im g by simp
  qed
  note f = load_data_fields [OF run]
  have "i \<in> set (concat (map snd (partition_dict ?d0)))"
    using i f unfolding kept_partition(3) by simp
  then obtain grp where "grp \<in> set (partition_dict ?d0)" "i \<in> set (snd grp)" by auto
  then have "?Q (?val ?d0 i) (?val d i)" using res by blast
  then show ?thesis by simp
qed

text \<open>The relabelling against the specification's latent classes.\<close>

lemma latent_class_None: "latent_class cs l = None \<longleftrightarrow> (\<forall>c \<in> set cs. l \<notin> set c)"
  by (induction cs) auto

lemma relabel_fold_classes:
  assumes "validate_sets (map set cls)"
  shows "fold (\<lambda>(class_idx, latent_class) (ls, kept).
                 if label \<in> set latent_class then (ls[i := int class_idx], kept @ [i]) else (ls, kept))
              (enumerate n cls) (ls, kept) =
         (case latent_class cls label of
            None \<Rightarrow> (ls, kept)
          | Some c \<Rightarrow> (ls[i := int (n + c)], kept @ [i]))"
  using assms
proof (induction cls arbitrary: n ls kept)
  case Nil
  then show ?case by simp
next
  case (Cons c0 cs)
  have v: "validate_sets (map set cs)" and dis: "\<forall>t \<in> set (map set cs). set c0 \<inter> t = {}"
    using Cons.prems by (auto split: if_splits)
  show ?case
  proof (cases "label \<in> set c0")
    case True
    then have "\<forall>c \<in> set cs. label \<notin> set c" using dis by auto
    then have none: "latent_class cs label = None" by (simp add: latent_class_None)
    show ?thesis using True Cons.IH [OF v, of "Suc n"] none by simp
  next
    case False
    show ?thesis using False Cons.IH [OF v, of "Suc n" ls kept]
      by (cases "latent_class cs label") simp_all
  qed
qed

lemma relabel_sample_spec:
  assumes "validate_classes cls"
  shows "relabel_sample cls (i, label) (ls, kept) =
         (case latent_class cls label of
            None \<Rightarrow> (ls, kept)
          | Some c \<Rightarrow> (ls[i := int c], kept @ [i]))"
  using relabel_fold_classes [OF assms [unfolded validate_classes_def], of label i 0 ls kept]
  by (simp add: relabel_sample_def split: option.splits)

lemma kept_indices_Cons:
  "kept_indices cls (r # rs) =
     (if latent_class cls r \<noteq> None then [0] else []) @ map Suc (kept_indices cls rs)"
proof -
  have "[0..<Suc (length rs)] = 0 # map Suc [0..<length rs]"
    by (simp add: upt_conv_Cons map_Suc_upt del: upt_Suc)
  then show ?thesis by (simp add: kept_indices_def filter_map o_def del: upt_Suc)
qed

lemma relabel_fold_samples:
  assumes v: "validate_classes cls" and len: "n + length rs \<le> length ls"
  shows "\<exists>ls'. fold (relabel_sample cls) (enumerate n rs) (ls, kept) =
                 (ls', kept @ map (\<lambda>j. n + j) (kept_indices cls rs)) \<and>
               length ls' = length ls \<and> (\<forall>j<n. ls' ! j = ls ! j) \<and>
               (\<forall>j<length rs. \<forall>c. latent_class cls (rs ! j) = Some c \<longrightarrow> ls' ! (n + j) = int c)"
  using len
proof (induction rs arbitrary: n ls kept)
  case Nil
  then show ?case by (simp add: kept_indices_def)
next
  case (Cons r rs)
  obtain ls1 kept1 where s1: "relabel_sample cls (n, r) (ls, kept) = (ls1, kept1)"
    by (cases "relabel_sample cls (n, r) (ls, kept)")
  have n: "n < length ls" using Cons.prems by simp
  have l1: "length ls1 = length ls" and b1: "\<forall>j<n. ls1 ! j = ls ! j"
    and k1: "kept1 = kept @ (if latent_class cls r \<noteq> None then [n] else [])"
    and c1: "\<forall>c. latent_class cls r = Some c \<longrightarrow> ls1 ! n = int c"
    using s1 n unfolding relabel_sample_spec [OF v]
    by (auto split: option.splits)
  have "Suc n + length rs \<le> length ls1" using Cons.prems l1 by simp
  from Cons.IH [OF this, of kept1] obtain ls' where
    f: "fold (relabel_sample cls) (enumerate (Suc n) rs) (ls1, kept1) =
          (ls', kept1 @ map (\<lambda>j. Suc n + j) (kept_indices cls rs))"
    and l': "length ls' = length ls1" and b': "\<forall>j<Suc n. ls' ! j = ls1 ! j"
    and c': "\<forall>j<length rs. \<forall>c. latent_class cls (rs ! j) = Some c \<longrightarrow> ls' ! (Suc n + j) = int c"
    by blast
  have res: "fold (relabel_sample cls) (enumerate n (r # rs)) (ls, kept) =
          (ls', kept @ map (\<lambda>j. n + j) (kept_indices cls (r # rs)))"
    using s1 f k1 by (simp add: kept_indices_Cons o_def)
  have cs: "ls' ! (n + j) = int c"
    if "j < length (r # rs)" "latent_class cls ((r # rs) ! j) = Some c" for j c
  proof (cases j)
    case 0
    then show ?thesis using that c1 b' by simp
  next
    case (Suc j')
    then show ?thesis using that c' by simp
  qed
  show ?case using res l' l1 b' b1 cs by auto
qed

lemma kept_data_spec:
  assumes v: "validate_classes (classes self)"
  shows "length (labels (kept_data self mnist g)) = length (kept_indices (classes self) (map snd mnist)) \<and>
         (\<forall>j < length (kept_indices (classes self) (map snd mnist)).
            X (kept_data self mnist g) ! j = fst (mnist ! (kept_indices (classes self) (map snd mnist) ! j)) \<and>
            0 \<le> labels (kept_data self mnist g) ! j \<and>
            latent_class (classes self) (snd (mnist ! (kept_indices (classes self) (map snd mnist) ! j))) =
              Some (nat (labels (kept_data self mnist g) ! j)))"
proof -
  let ?raw = "map snd mnist"
  let ?ks = "kept_indices (classes self) ?raw"
  obtain ls' where f: "get_new_labels (classes self) ?raw = (ls', ?ks)"
    and c: "\<forall>j<length ?raw. \<forall>c. latent_class (classes self) (?raw ! j) = Some c \<longrightarrow> ls' ! j = int c"
    using relabel_fold_samples [OF v, of 0 ?raw ?raw "[]"]
    by (auto simp: get_new_labels_def)
  have ks: "k < length mnist \<and> latent_class (classes self) (?raw ! k) \<noteq> None" if "k \<in> set ?ks" for k
    using that by (auto simp: kept_indices_def)
  have lab: "labels (kept_data self mnist g) = map (\<lambda>i. ls' ! i) ?ks"
    and img: "X (kept_data self mnist g) = map (\<lambda>i. map fst mnist ! i) ?ks"
    by (simp_all add: kept_data_def f Let_def)
  have each: "X (kept_data self mnist g) ! j = fst (mnist ! (?ks ! j)) \<and>
            0 \<le> labels (kept_data self mnist g) ! j \<and>
            latent_class (classes self) (snd (mnist ! (?ks ! j))) =
              Some (nat (labels (kept_data self mnist g) ! j))" if j: "j < length ?ks" for j
  proof -
    have mem: "?ks ! j \<in> set ?ks" using j by (rule nth_mem)
    have k: "?ks ! j < length mnist" "latent_class (classes self) (?raw ! (?ks ! j)) \<noteq> None"
      using ks [OF mem] by blast+
    then obtain c where c': "latent_class (classes self) (?raw ! (?ks ! j)) = Some c" by auto
    then have "ls' ! (?ks ! j) = int c" using c k(1) by simp
    then show ?thesis using c' k(1) j unfolding lab img by simp
  qed
  show ?thesis using each lab by simp
qed


section \<open>The claims about the dataset and the group inference\<close>

lemma sample_dataset_valid:
  "validate_classes (classes (sample_dataset tr s))"
  "length (classes (sample_dataset tr s)) \<le> length (colors (sample_dataset tr s))"
  "train (sample_dataset tr s) = tr"
  "spurious_correlation_strength (sample_dataset tr s) = s"
  by (simp_all add: sample_dataset_def validate_classes_def sample_colors_def)

lemma init_colors_length:
  assumes "init_colors color_map cls = Inr cs"
  shows "length cs = length cls + 1 \<and> 0 < length cls \<and> cs ! length cls = [0, 0, 0]"
  using assms by (auto simp: init_colors_def nth_append split: if_splits)

lemma to_float32_one: "to_float32 1 = 1"
  by (rule to_float32_rounds_to_one) simp_all

lemma infer_groups_partition:
  assumes "infer_groups R N logits lbls num_steps lr g = Inr gp"
  shows "exact_partition gp (length logits)"
proof -
  from assms obtain fin where fin: "infer_group_labels R N logits lbls num_steps lr g = Inr fin"
    and gp: "gp = partition_indices fin"
    by (auto simp: infer_groups_def split: sum.splits)
  have "length fin = length logits" using infer_group_labels_Inr [OF fin] by simp
  then show ?thesis unfolding gp using partition_indices_exact [of fin] by simp
qed

text \<open>
  C1. The partition by new label that the dataset builder makes over its kept samples,
  and the partition that \<^verbatim>\<open>infer_groups\<close> returns over its \<open>N\<close> samples, are exact
  partitions of the index set: distinct keys, and every index in exactly one group's
  list, once.
\<close>

theorem group_partitions_exact:
  "exact_partition (partition_dict (kept_data self mnist g)) (length (labels (kept_data self mnist g))) \<and>
   (load_data R self mnist g = Inr d \<longrightarrow>
      exact_partition (partition_dict d) (length (labels d)) \<and> length (X d) = length (labels d)) \<and>
   (infer_groups R' N logits lbls num_steps lr g' = Inr gp \<longrightarrow> exact_partition gp (length logits))"
proof -
  have "exact_partition (partition_dict d) (length (labels d)) \<and> length (X d) = length (labels d)"
    if "load_data R self mnist g = Inr d"
    using load_data_fields [OF that] kept_partition(1) [of self mnist g] by simp
  then show ?thesis
    using kept_partition(1) [of self mnist g] infer_groups_partition [of R' N logits lbls num_steps lr g' gp]
    by blast
qed

theorem group_partitions_exact_witness:
  "(\<exists>d. load_data fixed_rng (sample_dataset False (PyFloat 0)) sample_mnist () = Inr d \<and>
        exact_partition (partition_dict d) (length (labels d)) \<and> length (X d) = length (labels d)) \<and>
   (\<exists>gp. infer_groups fixed_rng sample_numerics [[2, 0], [0, 2], [1, 1]] [0, 1, 1] 5 (1 / 10) () = Inr gp \<and>
        exact_partition gp 3)"
proof -
  obtain d where d: "load_data fixed_rng (sample_dataset False (PyFloat 0)) sample_mnist () = Inr d"
    using load_data_test_total [OF fixed_rng_contract, of "sample_dataset False (PyFloat 0)" sample_mnist "()"]
    by (auto simp: sample_dataset_valid)
  have ce: "cross_entropy_check [[2, 0], [0, 2], [1, 1]] [0, 1, 1] = Inr ()"
    by (simp add: cross_entropy_check_def num_columns_def)
  obtain gp where gp: "infer_groups fixed_rng sample_numerics [[2, 0], [0, 2], [1, 1]] [0, 1, 1] 5 (1 / 10) () = Inr gp"
    using refinement_split_batch [OF ce, of 0 fixed_rng sample_numerics 5 "1 / 10" "()"] by auto
  show ?thesis
    using d gp
      group_partitions_exact [of "sample_dataset False (PyFloat 0)" sample_mnist "()" fixed_rng d
        fixed_rng sample_numerics "[[2, 0], [0, 2], [1, 1]]" "[0, 1, 1]" 5 "1 / 10" "()" gp]
    by (simp add: numeral_3_eq_3)
qed

lemma to_float32_nonneg:
  assumes "0 \<le> s"
  shows "0 \<le> to_float32 s"
proof -
  consider "s \<le> 1" | "1 \<le> s" "s \<le> 1 + 1 / 2 ^ 24" | "1 + 1 / 2 ^ 24 < s"
    by linarith
  then show ?thesis
  proof cases
    case 1
    then show ?thesis using to_float32_unit [OF assms] by simp
  next
    case 2
    then show ?thesis using to_float32_rounds_to_one [of s] by simp
  next
    case 3
    then show ?thesis using to_float32_above_one [of s] by simp
  qed
qed

lemma load_data_train_float:
  assumes "train self" "validate_classes (classes self)"
    and "spurious_correlation_strength self = PyFloat s"
  shows "load_data R self mnist g =
     (if s < 0 then Inl (AssertionError strength_message)
      else if 1 < to_float32 s then Inl ValueError
      else fold_err (train_group R self (Float32 (to_float32 s)))
             (partition_dict (kept_data self mnist g)) (kept_data self mnist g))"
proof (cases "s < 0")
  case True
  then show ?thesis using assms by (simp add: load_data_def not_le)
next
  case False
  then have "0 \<le> to_float32 s" by (intro to_float32_nonneg) simp
  then show ?thesis using False assms by (simp add: load_data_def Let_def not_le)
qed

text \<open>
  C2, as the source has it. The source asserts only that the strength is at least 0;
  the upper bound is torch's validation of the scalar \<^verbatim>\<open>torch.tensor(strength)\<close>, in
  single precision. A float just above 1 rounds to 1.0 and is accepted as strength 1.
\<close>

theorem strength_just_above_one_accepted:
  "\<not> ((1 + 1 / 2 ^ 30 :: real) \<le> 1) \<and>
   train (sample_dataset True (PyFloat (1 + 1 / 2 ^ 30))) \<and>
   (\<exists>d. load_data fixed_rng (sample_dataset True (PyFloat (1 + 1 / 2 ^ 30))) sample_mnist () = Inr d)"
proof -
  let ?self = "sample_dataset True (PyFloat (1 + 1 / 2 ^ 30))"
  have r: "to_float32 (1 + 1 / 2 ^ 30) = 1"
    by (rule to_float32_rounds_to_one) simp_all
  have "\<exists>d. load_data fixed_rng ?self sample_mnist () = Inr d"
    using load_data_aligned_total [OF fixed_rng_contract, of ?self sample_mnist "()"] r
    by (simp add: sample_dataset_valid)
  then show ?thesis by (simp add: sample_dataset_valid)
qed

text \<open>
  C2, with the bound that the code enforces. In training mode \<^verbatim>\<open>load_data\<close> raises whenever the float strength is
  below 0 (unset, \<open>-1\<close>, included) or above \<open>1 + 2\<^sup>-\<^sup>2\<^sup>4\<close>, that is, above 1 once rounded to
  single precision; with valid classes the exception is the one about the strength. For
  a float strength from 0 to \<open>1 + 2\<^sup>-\<^sup>2\<^sup>4\<close>, the interval \<open>[0, 1]\<close> included, no such
  exception is raised. An int strength below 0 or above 1 raises as well.
\<close>

theorem strength_checked_after_rounding:
  assumes "train self"
  shows "(\<forall>s. spurious_correlation_strength self = PyFloat s \<longrightarrow>
            (s < 0 \<or> 1 + 1 / 2 ^ 24 < s \<longrightarrow>
               (\<exists>e. load_data R self mnist g = Inl e) \<and>
               (validate_classes (classes self) \<longrightarrow>
                  (\<exists>e. load_data R self mnist g = Inl e \<and> strength_error e))) \<and>
            (0 \<le> s \<and> s \<le> 1 + 1 / 2 ^ 24 \<longrightarrow>
               (\<forall>e. load_data R self mnist g = Inl e \<longrightarrow> \<not> strength_error e))) \<and>
         (spurious_correlation_strength self = unset_strength \<longrightarrow> validate_classes (classes self) \<longrightarrow>
            load_data R self mnist g = Inl (AssertionError strength_message)) \<and>
         (\<forall>i. spurious_correlation_strength self = PyInt i \<longrightarrow> i < 0 \<or> 1 < i \<longrightarrow>
            (\<exists>e. load_data R self mnist g = Inl e))"
proof -
  have invalid: "\<exists>e. load_data R self mnist g = Inl e" if "\<not> validate_classes (classes self)"
    using that by (simp add: load_data_def)
  have out: "(\<exists>e. load_data R self mnist g = Inl e) \<and>
             (validate_classes (classes self) \<longrightarrow>
                (\<exists>e. load_data R self mnist g = Inl e \<and> strength_error e))"
    if s: "spurious_correlation_strength self = PyFloat s" and o: "s < 0 \<or> 1 + 1 / 2 ^ 24 < s" for s
  proof (cases "validate_classes (classes self)")
    case False
    then show ?thesis using invalid by simp
  next
    case True
    have "s < 0 \<or> 1 < to_float32 s" using o to_float32_above_one [of s] by blast
    then have "load_data R self mnist g = Inl (AssertionError strength_message) \<or>
               load_data R self mnist g = Inl ValueError"
      unfolding load_data_train_float [OF assms True s] by auto
    then show ?thesis by (auto simp: strength_error_def)
  qed
  have inside: "\<not> strength_error e"
    if s: "spurious_correlation_strength self = PyFloat s" and i: "0 \<le> s \<and> s \<le> 1 + 1 / 2 ^ 24"
      and e: "load_data R self mnist g = Inl e" for s e
  proof (cases "validate_classes (classes self)")
    case False
    then have "e = AssertionError classes_message" using e by (simp add: load_data_def)
    then show ?thesis by (simp add: strength_error_not_raised_later)
  next
    case True
    have "to_float32 s \<le> 1"
      using i to_float32_unit [of s] to_float32_rounds_to_one [of s] by (cases "s \<le> 1") auto
    then have "fold_err (train_group R self (Float32 (to_float32 s)))
                 (partition_dict (kept_data self mnist g)) (kept_data self mnist g) = Inl e"
      using e i unfolding load_data_train_float [OF assms True s] by simp
    from fold_err_Inl [OF this] have "e = ZeroDivisionError \<or> e = IndexError \<or> e = RuntimeError"
      using train_group_Inl by blast
    then show ?thesis using strength_error_not_raised_later by auto
  qed
  have unset: "load_data R self mnist g = Inl (AssertionError strength_message)"
    if "spurious_correlation_strength self = unset_strength" "validate_classes (classes self)"
    using that assms by (simp add: load_data_def Let_def unset_strength_def)
  have ints: "\<exists>e. load_data R self mnist g = Inl e"
    if "spurious_correlation_strength self = PyInt i" "i < 0 \<or> 1 < i" for i
    using that assms by (auto simp: load_data_def Let_def)
  show ?thesis using out inside unset ints by blast
qed

theorem strength_checked_after_rounding_witness:
  "train (sample_dataset True unset_strength) \<and>
   load_data fixed_rng (sample_dataset True unset_strength) sample_mnist () = Inl (AssertionError strength_message) \<and>
   (\<exists>e. load_data fixed_rng (sample_dataset True (PyFloat (3 / 2))) sample_mnist () = Inl e \<and> strength_error e) \<and>
   (\<exists>e. load_data fixed_rng (sample_dataset True (PyInt 2)) sample_mnist () = Inl e) \<and>
   (\<exists>d. load_data fixed_rng (sample_dataset True (PyFloat 1)) sample_mnist () = Inr d)"
proof -
  have 1: "load_data fixed_rng (sample_dataset True unset_strength) sample_mnist () = Inl (AssertionError strength_message)"
    using strength_checked_after_rounding [of "sample_dataset True unset_strength" fixed_rng sample_mnist "()"]
    by (simp add: sample_dataset_valid)
  have tr: "train (sample_dataset True s)" for s by (simp add: sample_dataset_valid)
  have 2: "\<exists>e. load_data fixed_rng (sample_dataset True (PyFloat (3 / 2))) sample_mnist () = Inl e \<and> strength_error e"
    using strength_checked_after_rounding [OF tr, of "PyFloat (3 / 2)" fixed_rng sample_mnist "()",
        THEN conjunct1, THEN spec, of "3 / 2"]
    by (simp add: sample_dataset_valid)
  have 3: "\<exists>e. load_data fixed_rng (sample_dataset True (PyInt 2)) sample_mnist () = Inl e"
    using strength_checked_after_rounding [OF tr, of "PyInt 2" fixed_rng sample_mnist "()",
        THEN conjunct2, THEN conjunct2, THEN spec, of 2]
    by (simp add: sample_dataset_valid)
  have 4: "\<exists>d. load_data fixed_rng (sample_dataset True (PyFloat 1)) sample_mnist () = Inr d"
    using load_data_aligned_total [OF fixed_rng_contract, of "sample_dataset True (PyFloat 1)" sample_mnist "()"]
    by (simp add: sample_dataset_valid to_float32_one)
  show ?thesis using 1 2 3 4 by (simp add: sample_dataset_valid)
qed

lemma corner_background_pixels:
  assumes "create_background R MAGNITUDE_HARD colour gs = (Inr background, gs')"
  shows "background c 0 0 = colour ! c \<and> background c 5 5 = 0"
proof -
  have "compute_mask (List.product [0..<2] [0..<2]) =
        Inr (\<lambda>c r k. if (r, k) \<in> set (List.product [0..<2] [0..<2]) then 1 else 0)"
    unfolding compute_mask_def Let_def zip_map_fst_snd zeros_def
    by (simp add: list_all_iff)
  then have "background = tmul (rgb_to_mnist_background colour)
        (\<lambda>c r k. if (r, k) \<in> set (List.product [0..<2] [0..<2]) then 1 else 0)"
    using assms by (simp add: create_background_def difficulty_mask_def)
  then show ?thesis by (simp add: tmul_def rgb_to_mnist_background_def)
qed

text \<open>
  C5. In training mode with correlation strength 1.0, construction succeeds; the kept
  samples are the input samples whose raw label lies in a class, in order; the spurious
  class of every kept sample is its latent class, the index of the class that contains
  its raw label; and its image is the input image composited with a background of the
  palette's colour for that class. So no sample of latent class 0 has spurious class 1
  or a background made from the colour of latent class 1.
\<close>

theorem full_correlation_aligns:
  fixes R :: "'g torch_rng"
  assumes "rng_contract R" "validate_classes (classes self)" "train self"
    and "spurious_correlation_strength self = PyFloat 1"
    and "init_colors color_map (classes self) = Inr (colors self)"
  shows "\<exists>d. load_data R self mnist g = Inr d \<and>
           length (labels d) = length (kept_indices (classes self) (map snd mnist)) \<and>
           length (X d) = length (labels d) \<and> spurious d = labels d \<and>
           (\<forall>j<length (labels d).
              0 \<le> spurious d ! j \<and>
              latent_class (classes self)
                (snd (mnist ! (kept_indices (classes self) (map snd mnist) ! j))) =
                Some (nat (spurious d ! j)) \<and>
              painted R self (labels d ! j)
                (fst (mnist ! (kept_indices (classes self) (map snd mnist) ! j))) (X d ! j) \<and>
              (labels d ! j = 0 \<longrightarrow> spurious d ! j \<noteq> 1))"
proof -
  let ?d0 = "kept_data self mnist g"
  let ?ks = "kept_indices (classes self) (map snd mnist)"
  have col: "length (classes self) \<le> length (colors self)"
    using init_colors_length [OF assms(5)] by simp
  have tt: "torch_tensor (spurious_correlation_strength self) = Inr (Float32 1)"
    and nv: "0 \<le> number_value (spurious_correlation_strength self)"
    using assms(4) by (simp_all add: to_float32_one)
  obtain d where d: "load_data R self mnist g = Inr d"
    using load_data_aligned_total [OF assms(1-3) nv tt col] by blast
  note f = load_data_fields [OF d]
  have grp: "\<forall>grp \<in> set (partition_dict d).
      map ((!) (spurious d)) (snd grp) = replicate (length (snd grp)) (fst grp)"
  proof (rule load_data_groups [OF assms(1) d,
        where Post = "\<lambda>grp vals. vals = replicate (length (snd grp)) (fst grp)"])
    fix body label idxs and e e' :: "'g spuco_data"
    assume b: "loop_body_of R self body"
      and mem: "(label, idxs) \<in> set (partition_dict (kept_data self mnist g))"
      and len: "length (spurious e) = length (labels (kept_data self mnist g))"
      and r: "body (label, idxs) e = Inr e'"
    note kp = kept_partition(4) [OF mem]
    have "body = train_group R self (Float32 1)"
      using b assms(3) tt by (auto simp: loop_body_of_def)
    then have r': "train_group R self (Float32 1) (label, idxs) e = Inr e'" using r by simp
    have "map ((!) (spurious e')) idxs = replicate (length idxs) label"
      using train_group_Inr [OF assms(1) r'] kp len by simp
    then show "map ((!) (spurious e')) idxs = replicate (length (snd (label, idxs))) (fst (label, idxs))"
      by simp
  qed
  have "spurious d ! i = labels d ! i" if i: "i < length (spurious d)" for i
  proof -
    obtain label idxs where m: "(label, idxs) \<in> set (partition_dict d)" "i \<in> set idxs" "labels d ! i = label"
      using load_data_covered [OF d i] by blast
    have "map ((!) (spurious d)) idxs = replicate (length idxs) label"
      using bspec [OF grp m(1)] by simp
    then have "\<forall>v \<in> set (map ((!) (spurious d)) idxs). v = label"
      by (metis in_set_replicate)
    then show ?thesis using m(2,3) by simp
  qed
  then have eq: "spurious d = labels d"
    using f by (intro nth_equalityI) auto
  note ks = kept_data_spec [OF assms(2), of mnist g]
  have len: "length (labels d) = length ?ks" using ks f by simp
  have each: "0 \<le> spurious d ! j \<and>
      latent_class (classes self) (snd (mnist ! (?ks ! j))) = Some (nat (spurious d ! j)) \<and>
      painted R self (labels d ! j) (fst (mnist ! (?ks ! j))) (X d ! j) \<and>
      (labels d ! j = 0 \<longrightarrow> spurious d ! j \<noteq> 1)" if j: "j < length (labels d)" for j
  proof -
    have j': "j < length ?ks" using j len by simp
    have k: "X ?d0 ! j = fst (mnist ! (?ks ! j))" "0 \<le> labels ?d0 ! j"
      "latent_class (classes self) (snd (mnist ! (?ks ! j))) = Some (nat (labels ?d0 ! j))"
      using ks j' by simp_all
    have p: "painted R self (spurious d ! j) (X ?d0 ! j) (X d ! j)"
      by (rule load_data_images [OF assms(1) d j])
    show ?thesis using k p eq f by simp
  qed
  show ?thesis using d len f eq each by blast
qed

lemma sample_painted:
  assumes "painted fixed_rng (sample_dataset tr s) v sample_image x" "v = 0 \<or> v = 1"
  shows "x c 0 0 = sample_colors ! nat v ! c \<and> x c 5 5 = 1 / 2"
proof -
  from assms(1) obtain colour background gs gs' where
    col: "py_getitem sample_colors v = Inr colour"
    and bg: "create_background fixed_rng MAGNITUDE_HARD colour gs = (Inr background, gs')"
    and x: "x = composite background sample_image"
    unfolding painted_def by (auto simp: sample_dataset_def)
  have colour: "colour = sample_colors ! nat v"
    using col assms(2) by (auto simp: py_getitem_def sample_colors_def)
  show ?thesis
    unfolding x composite_entry using corner_background_pixels [OF bg, of c] colour
    by (simp add: sample_image_def)
qed

theorem full_correlation_aligns_witness:
  "rng_contract fixed_rng \<and> validate_classes [[0, 1], [2, 3]] \<and>
   (\<exists>d. load_data fixed_rng (sample_dataset True (PyFloat 1)) sample_mnist () = Inr d \<and>
         labels d = [0, 1, 0, 1] \<and> spurious d = [0, 1, 0, 1] \<and> length (X d) = 4 \<and>
         (X d ! 0) 0 0 0 = 1 \<and> (X d ! 0) 1 0 0 = 0 \<and>
         (X d ! 1) 0 0 0 = 0 \<and> (X d ! 1) 1 0 0 = 1 \<and> (X d ! 0) 0 5 5 = 1 / 2)"
proof -
  let ?self = "sample_dataset True (PyFloat 1)"
  let ?ks = "kept_indices (classes ?self) (map snd sample_mnist)"
  have v: "validate_classes [[0, 1], [2, 3]]" by (simp add: validate_classes_def)
  have ic: "init_colors (\<lambda>x. if x = 0 then [1, 0, 0, 1] else [0, 1, 1, 1]) (classes ?self) = Inr (colors ?self)"
    by (simp add: init_colors_def sample_dataset_def sample_colors_def upt_rec [of 0 2] upt_rec [of 1 2])
  obtain d where d: "load_data fixed_rng ?self sample_mnist () = Inr d"
    and len: "length (X d) = length (labels d)" and eq: "spurious d = labels d"
    and each: "\<forall>j<length (labels d).
              0 \<le> spurious d ! j \<and>
              latent_class (classes ?self) (snd (sample_mnist ! (?ks ! j))) = Some (nat (spurious d ! j)) \<and>
              painted fixed_rng ?self (labels d ! j) (fst (sample_mnist ! (?ks ! j))) (X d ! j) \<and>
              (labels d ! j = 0 \<longrightarrow> spurious d ! j \<noteq> 1)"
    using full_correlation_aligns [OF fixed_rng_contract _ _ _ ic, of sample_mnist "()"]
    by (auto simp: sample_dataset_valid)
  have lab0: "labels (kept_data ?self sample_mnist ()) = [0, 1, 0, 1]" by code_simp
  have lab: "labels d = [0, 1, 0, 1]" using load_data_fields [OF d] lab0 by simp
  have ks: "?ks = [0, 1, 3, 4]" by code_simp
  have p0: "painted fixed_rng ?self 0 sample_image (X d ! 0)"
    using each [THEN spec, of 0] lab ks by (simp add: sample_mnist_def)
  have p1: "painted fixed_rng ?self 1 sample_image (X d ! 1)"
    using each [THEN spec, of 1] lab ks by (simp add: sample_mnist_def)
  have x0: "(X d ! 0) c 0 0 = sample_colors ! 0 ! c \<and> (X d ! 0) c 5 5 = 1 / 2" for c
    using sample_painted [OF p0, of c] by simp
  have x1: "(X d ! 1) c 0 0 = sample_colors ! 1 ! c" for c
    using sample_painted [OF p1, of c] by simp
  show ?thesis
    using d lab eq len x0 [of 0] x0 [of 1] x1 [of 0] x1 [of 1] v fixed_rng_contract
    by (simp add: sample_colors_def)
qed




text \<open>
  C9. After a successful construction, in either mode, the spurious vector has one
  entry for each kept sample and every entry is a latent class index \<open>0, \<dots>, k - 1\<close>:
  never the placeholder \<open>-1\<close>, and never \<open>k\<close>, the index at which \<^verbatim>\<open>init_colors\<close> puts
  black, the last entry of the palette.
\<close>

theorem spurious_is_latent_class:
  fixes R :: "'g torch_rng"
  assumes "rng_contract R" "load_data R self mnist g = Inr d" "i < length (spurious d)"
  shows "length (spurious d) = length (X d) \<and>
         0 \<le> spurious d ! i \<and> spurious d ! i < int (length (classes self)) \<and>
         spurious d ! i \<noteq> - 1 \<and> spurious d ! i \<noteq> int (length (classes self)) \<and>
         (init_colors color_map (classes self) = Inr cs \<longrightarrow>
            length cs = length (classes self) + 1 \<and> cs ! length (classes self) = [0, 0, 0])"
proof -
  let ?k = "length (classes self)"
  note f = load_data_fields [OF assms(2)]
  have grp: "\<forall>grp \<in> set (partition_dict d). \<forall>v \<in> set (map ((!) (spurious d)) (snd grp)). 0 \<le> v \<and> v < int ?k"
  proof (rule load_data_groups [OF assms(1,2),
        where Post = "\<lambda>grp vals. \<forall>v \<in> set vals. 0 \<le> v \<and> v < int ?k"])
    fix body label idxs and e e' :: "'g spuco_data"
    assume b: "loop_body_of R self body"
      and mem: "(label, idxs) \<in> set (partition_dict (kept_data self mnist g))"
      and len: "length (spurious e) = length (labels (kept_data self mnist g))"
      and r: "body (label, idxs) e = Inr e'"
    note kp = kept_partition(4) [OF mem]
    have di: "distinct idxs" and rng: "\<And>idx. idx \<in> set idxs \<Longrightarrow> idx < length (spurious e)"
      and l: "0 \<le> label" "label < int ?k"
      using kp len by simp_all
    show "\<forall>v \<in> set (map ((!) (spurious e')) idxs). 0 \<le> v \<and> v < int ?k"
    proof (cases "train self")
      case True
      then obtain probs where "body = train_group R self probs"
        using b by (auto simp: loop_body_of_def)
      then have "train_group R self probs (label, idxs) e = Inr e'" using r by simp
      from train_group_Inr [OF assms(1) this di rng] l show ?thesis by auto
    next
      case False
      then have "body = test_group R self" using b by (simp add: loop_body_of_def)
      then have "test_group R self (label, idxs) e = Inr e'" using r by simp
      from test_group_Inr [OF assms(1) this di rng]
      have m: "mset (map ((!) (spurious e')) idxs) = mset (map (\<lambda>i. int (i mod ?k)) [0..<length idxs])"
        by simp
      have k: "0 < ?k" using l by linarith
      have "set (map ((!) (spurious e')) idxs) = set (map (\<lambda>i. int (i mod ?k)) [0..<length idxs])"
        by (rule mset_eq_setD [OF m])
      then show ?thesis using k by auto
    qed
  qed
  obtain label idxs where m: "(label, idxs) \<in> set (partition_dict d)" "i \<in> set idxs"
    using load_data_covered [OF assms(2,3)] by blast
  have r: "0 \<le> spurious d ! i \<and> spurious d ! i < int ?k"
    using bspec [OF grp m(1)] m(2) by simp
  have ic: "length cs = ?k + 1 \<and> cs ! ?k = [0, 0, 0]" if "init_colors color_map (classes self) = Inr cs"
    using init_colors_length [OF that] by simp
  show ?thesis using r f ic by auto
qed

theorem spurious_is_latent_class_witness:
  "rng_contract fixed_rng \<and>
   (\<exists>d. load_data fixed_rng (sample_dataset True (PyFloat 1)) sample_mnist () = Inr d \<and>
         0 < length (spurious d) \<and> 0 \<le> spurious d ! 0 \<and> spurious d ! 0 < 2)"
proof -
  let ?self = "sample_dataset True (PyFloat 1)"
  have "\<exists>d. load_data fixed_rng ?self sample_mnist () = Inr d"
    using load_data_aligned_total [OF fixed_rng_contract, of ?self sample_mnist "()"]
    by (simp add: sample_dataset_valid to_float32_one)
  then obtain d where d: "load_data fixed_rng ?self sample_mnist () = Inr d" ..
  have "length (labels (kept_data ?self sample_mnist ())) = 4" by code_simp
  then have len: "0 < length (spurious d)" using load_data_fields [OF d] by simp
  have "length (classes ?self) = 2" by (simp add: sample_dataset_def)
  then show ?thesis
    using spurious_is_latent_class [OF fixed_rng_contract d len] d len fixed_rng_contract by auto
qed


lemma single_class_partition:
  assumes k: "length (classes self) = 1" and ne: "labels (kept_data self mnist g) \<noteq> []"
  shows "\<exists>idxs. partition_dict (kept_data self mnist g) = [(0, idxs)] \<and>
                length idxs = length (labels (kept_data self mnist g))"
proof -
  let ?ls = "labels (kept_data self mnist g)"
  let ?p = "partition_indices ?ls"
  have pd: "partition_dict (kept_data self mnist g) = ?p"
    using kept_data_fields [of self mnist g] by (elim conjE)
  have zero: "l = 0" if "l \<in> set ?ls" for l
    using kept_data_labels [OF that] k by simp
  obtain l where l: "l \<in> set ?ls" using ne by (cases ?ls) auto
  then have "0 \<in> set ?ls" using zero [OF l] by simp
  then have sl: "set ?ls = {0}" using zero by blast
  have d: "distinct (map fst ?p)"
    using partition_indices_invariant [of ?ls] by (elim conjE)
  have ks: "set (map fst ?p) = set ?ls"
    using partition_indices_invariant [of ?ls] by (elim conjE)
  have "length (map fst ?p) = card (set (map fst ?p))"
    using d by (simp only: distinct_card)
  then have len1: "length ?p = 1" unfolding ks sl by simp
  then obtain q where q: "?p = [q]" by (cases ?p) auto
  obtain key idxs where kv: "q = (key, idxs)" by (cases q)
  have "key = 0" using ks sl q kv by simp
  have "mset idxs = mset [0..<length ?ls]"
    using partition_indices_concat [of ?ls] q kv by simp
  then have "length idxs = length ?ls" by (rule permD(3))
  then show ?thesis using pd q kv \<open>key = 0\<close> by simp
qed

lemma to_float32_half: "to_float32 (1 / 2) = 1 / 2"
proof -
  have e: "float32_exponent (1 / 2) = - 1"
    by (simp add: float32_exponent_def numeral_eq_Suc)
  have p: "(2::real) powi (- 24) = 1 / 2 ^ 24" by (simp add: power_int_minus field_simps)
  have r: "round_half_even (2 ^ 23 :: real) = 2 ^ 23"
    by (simp add: round_half_even_def Let_def)
  have "(1 / 2 :: real) / (1 / 2 ^ 24) = 2 ^ 23" by simp
  then show ?thesis unfolding to_float32_def Let_def e using p r by simp
qed

text \<open>
  C10. In training mode with a single latent class, any valid float strength below 1 and
  at least one kept sample: when one of the Bernoulli draws for the group is 0 (the
  draws use the strength as \<^verbatim>\<open>torch.tensor\<close> stores it), the list of other labels is
  empty, the remainder \<^verbatim>\<open>i % len(other_labels)\<close> divides by zero and \<^verbatim>\<open>load_data\<close>
  raises ZeroDivisionError instead of returning a dataset.
\<close>

theorem single_class_training_fails:
  assumes "train self" "classes self = [cls]" "validate_classes [cls]"
    and "spurious_correlation_strength self = PyFloat s" "0 \<le> s" "s < 1"
    and "i < length (labels (kept_data self mnist g))"
    and "\<not> fst (bernoulli_sample R (to_float32 s)
                 (length (labels (kept_data self mnist g))) g) i"
  shows "load_data R self mnist g = Inl ZeroDivisionError"
proof -
  let ?d0 = "kept_data self mnist g"
  have k: "length (classes self) = 1" using assms(2) by simp
  have ne: "labels ?d0 \<noteq> []" using assms(7) by auto
  obtain idxs where p: "partition_dict ?d0 = [(0, idxs)]" "length idxs = length (labels ?d0)"
    using single_class_partition [OF k ne] by blast
  have g: "gen ?d0 = g" using kept_data_fields [of self mnist g] by (elim conjE)
  have tg: "train_group R self (Float32 (to_float32 s)) (0, idxs) ?d0 = Inl ZeroDivisionError"
    using assms(7,8) p(2) g by (intro train_group_single_class [OF k, of i]) simp_all
  have v: "validate_classes (classes self)" using assms(2,3) by simp
  have "to_float32 s \<le> 1" using to_float32_unit [of s] assms(5,6) by simp
  then have "load_data R self mnist g =
      fold_err (train_group R self (Float32 (to_float32 s))) (partition_dict ?d0) ?d0"
    using assms(5) unfolding load_data_train_float [OF assms(1) v assms(4)] by simp
  then show ?thesis using p(1) tg by simp
qed

theorem single_class_training_fails_witness:
  "validate_classes [[0, 1]] \<and>
   \<not> fst (bernoulli_sample fixed_rng (to_float32 (1 / 2)) 2 ()) 0 \<and>
   load_data fixed_rng
     \<lparr> spurious_feature_difficulty = MAGNITUDE_EASY, classes = [[0, 1]],
       spurious_correlation_strength = PyFloat (1 / 2), train = True,
       colors = [[1, 0, 0], [0, 0, 0]] \<rparr>
     sample_mnist () = Inl ZeroDivisionError"
proof -
  let ?self = "\<lparr> spurious_feature_difficulty = MAGNITUDE_EASY, classes = [[0, 1]],
       spurious_correlation_strength = PyFloat (1 / 2), train = True,
       colors = [[1, 0, 0], [0, 0, 0]] \<rparr>"
  have v: "validate_classes [[0, 1]]" by (simp add: validate_classes_def)
  have n: "length (labels (kept_data ?self sample_mnist ())) = 2" by code_simp
  have h: "to_float32 (1 / 2) = 1 / 2" by (rule to_float32_half)
  have b: "\<not> fst (bernoulli_sample fixed_rng (to_float32 (1 / 2)) 2 ()) 0"
    unfolding h by (simp add: fixed_rng_def)
  have t: "train ?self" and c: "classes ?self = [[0, 1]]"
    and s: "spurious_correlation_strength ?self = PyFloat (1 / 2)" "0 \<le> (1 / 2 :: real)"
      "(1 / 2 :: real) < 1"
    by simp_all
  have i: "0 < length (labels (kept_data ?self sample_mnist ()))" unfolding n by simp
  have d: "\<not> fst (bernoulli_sample fixed_rng (to_float32 (1 / 2))
                 (length (labels (kept_data ?self sample_mnist ()))) ()) 0"
    unfolding n using b by simp
  have "load_data fixed_rng ?self sample_mnist () = Inl ZeroDivisionError"
    by (rule single_class_training_fails [OF t c v s i d])
  then show ?thesis using v b by blast
qed

end
